theory Spec2Isabelle
  imports Main "HOL-Library.Sublist"
begin

section \<open>Python strings\<close>

text \<open>
  A Python \<open>str\<close> is modelled as a \<open>string\<close> (a list of characters), and a value that
  may be \<open>None\<close> as a \<open>string option\<close>. A character of the model is a code point below
  256 (ASCII and the Latin-1 supplement); texts with other code points are outside the
  model. On these characters \<open>str.lower\<close>, the class \<open>\w\<close> of a \<open>str\<close> pattern and the
  white space of \<open>str.strip\<close> are those of Python 3: the tables below list the characters
  beyond ASCII that Python lowers, counts as word characters and counts as white space.
\<close>

definition ascii_uppercase :: string where
  "ascii_uppercase = ''ABCDEFGHIJKLMNOPQRSTUVWXYZ''"

definition ascii_lowercase :: string where
  "ascii_lowercase = ''abcdefghijklmnopqrstuvwxyz''"

definition digits :: string where
  "digits = ''0123456789''"

text \<open>
  The upper-case letters of the Latin-1 supplement, \<open>0xC0\<close> to \<open>0xDE\<close> without the
  multiplication sign \<open>0xD7\<close>, and their lower-case letters, \<open>0x20\<close> above them.
\<close>

definition latin1_uppercase :: string where
  "latin1_uppercase =
     [CHR 0xC0, CHR 0xC1, CHR 0xC2, CHR 0xC3, CHR 0xC4, CHR 0xC5, CHR 0xC6, CHR 0xC7,
      CHR 0xC8, CHR 0xC9, CHR 0xCA, CHR 0xCB, CHR 0xCC, CHR 0xCD, CHR 0xCE, CHR 0xCF,
      CHR 0xD0, CHR 0xD1, CHR 0xD2, CHR 0xD3, CHR 0xD4, CHR 0xD5, CHR 0xD6, CHR 0xD8,
      CHR 0xD9, CHR 0xDA, CHR 0xDB, CHR 0xDC, CHR 0xDD, CHR 0xDE]"

definition latin1_lowercase :: string where
  "latin1_lowercase =
     [CHR 0xE0, CHR 0xE1, CHR 0xE2, CHR 0xE3, CHR 0xE4, CHR 0xE5, CHR 0xE6, CHR 0xE7,
      CHR 0xE8, CHR 0xE9, CHR 0xEA, CHR 0xEB, CHR 0xEC, CHR 0xED, CHR 0xEE, CHR 0xEF,
      CHR 0xF0, CHR 0xF1, CHR 0xF2, CHR 0xF3, CHR 0xF4, CHR 0xF5, CHR 0xF6, CHR 0xF8,
      CHR 0xF9, CHR 0xFA, CHR 0xFB, CHR 0xFC, CHR 0xFD, CHR 0xFE]"

definition lower_char :: "char \<Rightarrow> char" where
  "lower_char c =
     (case map_of (zip (ascii_uppercase @ latin1_uppercase) (ascii_lowercase @ latin1_lowercase)) c of
        Some d \<Rightarrow> d
      | None \<Rightarrow> c)"

text \<open>\<open>s.lower()\<close>\<close>

definition lower :: "string \<Rightarrow> string" where
  "lower s = map lower_char s"

text \<open>\<open>s.startswith(kw)\<close>, the test at one position of the substring search.\<close>

fun startswith :: "string \<Rightarrow> string \<Rightarrow> bool" where
  "startswith s [] = True"
| "startswith [] (k # kw) = False"
| "startswith (c # s) (k # kw) = (c = k \<and> startswith s kw)"

text \<open>\<open>kw in s\<close> on strings: \<open>kw\<close> occurs in \<open>s\<close> at some position, tried left to right.\<close>

fun str_in :: "string \<Rightarrow> string \<Rightarrow> bool" where
  "str_in kw [] = (kw = [])"
| "str_in kw (c # s) = (startswith (c # s) kw \<or> str_in kw s)"

text \<open>Truthiness of a \<open>str\<close> or \<open>None\<close>: \<open>None\<close> and \<open>""\<close> are false.\<close>

definition truthy :: "string option \<Rightarrow> bool" where
  "truthy x = (case x of None \<Rightarrow> False | Some s \<Rightarrow> s \<noteq> [])"

text \<open>\<open>x or y\<close> where both may be \<open>None\<close>, and \<open>x or d\<close> with a string default.\<close>

definition opt_or :: "string option \<Rightarrow> string option \<Rightarrow> string option" where
  "opt_or x y = (if truthy x then x else y)"

definition py_or :: "string option \<Rightarrow> string \<Rightarrow> string" where
  "py_or x d = (case x of None \<Rightarrow> d | Some s \<Rightarrow> if s \<noteq> [] then s else d)"

text \<open>\<open>sep.join(xs)\<close>\<close>

fun join :: "string \<Rightarrow> string list \<Rightarrow> string" where
  "join sep [] = []"
| "join sep [x] = x"
| "join sep (x # y # ys) = x @ sep @ join sep (y # ys)"

definition is_space :: "char \<Rightarrow> bool" where
  "is_space c = (c \<in> set [CHR '' '', CHR 0x09, CHR 0x0A, CHR 0x0B, CHR 0x0C, CHR 0x0D,
                           CHR 0x1C, CHR 0x1D, CHR 0x1E, CHR 0x1F, CHR 0x85, CHR 0xA0])"

text \<open>\<open>s.strip()\<close>\<close>

definition strip :: "string \<Rightarrow> string" where
  "strip s = rev (dropWhile is_space (rev (dropWhile is_space s)))"

section \<open>The affiliation filter\<close>

definition PHARMA_KEYWORDS :: "string list" where
  "PHARMA_KEYWORDS =
     [''pharma'', ''biotech'', ''biosciences'', ''therapeutics'', ''diagnostics'',
      ''life sciences'', ''laboratories'', ''inc'', ''corp'', ''ltd'', ''gmbh'',
      ''pharmaceutical'', ''genomics'', ''healthcare'', ''bioscience'', ''biopharma'']"

text \<open>\<open>any(kw in (aff or "").lower() for kw in PHARMA_KEYWORDS)\<close>\<close>

definition is_pharma_affiliation :: "string option \<Rightarrow> bool" where
  "is_pharma_affiliation aff =
     list_ex (\<lambda>kw. str_in kw (lower (py_or aff ''''))) PHARMA_KEYWORDS"

section \<open>The regular expression of the email extraction\<close>

text \<open>
  The pattern \<open>[\w\.-]+@[\w\.-]+\<close> is a sequence of items: a literal character, or a
  character class under the greedy \<open>+\<close>. \<open>match_here\<close> is the backtracking matcher
  of \<open>re\<close> anchored at the start of its input: it returns the length of the match. A
  greedy \<open>+\<close> first takes the longest run of class characters and gives them back one by
  one, down to one character, until the rest of the pattern matches.
\<close>

datatype re_item = Lit char | Plus "char \<Rightarrow> bool"

fun try_lengths :: "(string \<Rightarrow> nat option) \<Rightarrow> string \<Rightarrow> nat \<Rightarrow> nat option" where
  "try_lengths k s 0 = None"
| "try_lengths k s (Suc n) =
     (case k (drop (Suc n) s) of
        Some m \<Rightarrow> Some (Suc n + m)
      | None \<Rightarrow> try_lengths k s n)"

primrec match_here :: "re_item list \<Rightarrow> string \<Rightarrow> nat option" where
  "match_here [] = (\<lambda>s. Some 0)"
| "match_here (it # p) = (\<lambda>s.
     case it of
       Lit c \<Rightarrow>
         (case s of
            [] \<Rightarrow> None
          | x # xs \<Rightarrow> if x = c then map_option Suc (match_here p xs) else None)
     | Plus P \<Rightarrow> try_lengths (match_here p) s (length (takeWhile P s)))"

text \<open>
  \<open>re.search(p, s)\<close>: the start positions are tried from left to right, the end of the
  string included; the result is \<open>group(0)\<close> of the first match.
\<close>

fun re_search :: "re_item list \<Rightarrow> string \<Rightarrow> string option" where
  "re_search p [] = (case match_here p [] of Some n \<Rightarrow> Some [] | None \<Rightarrow> None)"
| "re_search p (c # s) =
     (case match_here p (c # s) of
        Some n \<Rightarrow> Some (take n (c # s))
      | None \<Rightarrow> re_search p s)"

text \<open>
  The characters beyond ASCII that \<open>\w\<close> matches: the letters, digits and fractions of
  the Latin-1 supplement.
\<close>

definition latin1_word :: string where
  "latin1_word =
     [CHR 0xAA, CHR 0xB2, CHR 0xB3, CHR 0xB5, CHR 0xB9, CHR 0xBA, CHR 0xBC, CHR 0xBD,
      CHR 0xBE, CHR 0xC0, CHR 0xC1, CHR 0xC2, CHR 0xC3, CHR 0xC4, CHR 0xC5, CHR 0xC6,
      CHR 0xC7, CHR 0xC8, CHR 0xC9, CHR 0xCA, CHR 0xCB, CHR 0xCC, CHR 0xCD, CHR 0xCE,
      CHR 0xCF, CHR 0xD0, CHR 0xD1, CHR 0xD2, CHR 0xD3, CHR 0xD4, CHR 0xD5, CHR 0xD6,
      CHR 0xD8, CHR 0xD9, CHR 0xDA, CHR 0xDB, CHR 0xDC, CHR 0xDD, CHR 0xDE, CHR 0xDF,
      CHR 0xE0, CHR 0xE1, CHR 0xE2, CHR 0xE3, CHR 0xE4, CHR 0xE5, CHR 0xE6, CHR 0xE7,
      CHR 0xE8, CHR 0xE9, CHR 0xEA, CHR 0xEB, CHR 0xEC, CHR 0xED, CHR 0xEE, CHR 0xEF,
      CHR 0xF0, CHR 0xF1, CHR 0xF2, CHR 0xF3, CHR 0xF4, CHR 0xF5, CHR 0xF6, CHR 0xF8,
      CHR 0xF9, CHR 0xFA, CHR 0xFB, CHR 0xFC, CHR 0xFD, CHR 0xFE, CHR 0xFF]"

text \<open>The class \<open>\w\<close>, and the class \<open>[\w\.-]\<close>.\<close>

definition word_char :: "char \<Rightarrow> bool" where
  "word_char c = (c \<in> set (ascii_lowercase @ ascii_uppercase @ digits @ ''_'' @ latin1_word))"

definition email_char :: "char \<Rightarrow> bool" where
  "email_char c = (word_char c \<or> c = CHR ''.'' \<or> c = CHR ''-'')"

definition EMAIL_RE :: "re_item list" where
  "EMAIL_RE = [Plus email_char, Lit CHR ''@'', Plus email_char]"

definition extract_email :: "string option \<Rightarrow> string" where
  "extract_email text =
     (if \<not> truthy text then ''''
      else case re_search EMAIL_RE (the text) of
             Some m \<Rightarrow> m
           | None \<Rightarrow> '''')"

section \<open>Element trees\<close>

text \<open>
  An element of \<open>xml.etree.ElementTree\<close>: its tag, its text (\<open>None\<close> when the element
  has no text) and its children in document order.
\<close>

datatype elem = Elem (tag: string) (etext: "string option") (children: "elem list")

text \<open>\<open>Element.iter()\<close>: the element itself, then its descendants, in document order.\<close>

fun iter :: "elem \<Rightarrow> elem list" where
  "iter (Elem t x cs) = Elem t x cs # concat (map iter cs)"

text \<open>
  The paths of the program are sequences of two kinds of steps after the leading \<open>.\<close>:
  \<open>/tag\<close> (or a bare \<open>tag\<close>) selects the children with that tag, \<open>//tag\<close> selects
  the descendants with that tag, the element itself left out.
\<close>

datatype step = Child string | Descendant string

fun select :: "step \<Rightarrow> elem list \<Rightarrow> elem list" where
  "select (Child tg) result =
     concat (map (\<lambda>e. filter (\<lambda>c. tag c = tg) (children e)) result)"
| "select (Descendant tg) result =
     concat (map (\<lambda>e. filter (\<lambda>d. tag d = tg) (tl (iter e))) result)"

definition findall :: "step list \<Rightarrow> elem \<Rightarrow> elem list" where
  "findall path e = foldl (\<lambda>result st. select st result) [e] path"

text \<open>
  \<open>findtext\<close>: the text of the first match, \<open>""\<close> when that element has no text,
  \<open>None\<close> when nothing matches.
\<close>

definition findtext :: "step list \<Rightarrow> elem \<Rightarrow> string option" where
  "findtext path e =
     (case findall path e of
        [] \<Rightarrow> None
      | m # _ \<Rightarrow> Some (case etext m of None \<Rightarrow> '''' | Some t \<Rightarrow> t))"

section \<open>The record parser\<close>

text \<open>The dictionary appended to \<open>results\<close>, one field per key.\<close>

record article_result =
  PubmedID :: string
  Title :: string
  Publication_Date :: string
  Company_Affiliation :: string
  Non_academic_Author :: string
  Corresponding_Author_Email :: string

text \<open>The three variables the loops over authors and affiliations assign.\<close>

record scan =
  non_acad_author :: string
  company_aff :: string
  corr_email :: string

text \<open>The body of \<open>for aff in affs\<close>, for the author \<open>a\<close>.\<close>

definition aff_step :: "elem \<Rightarrow> scan \<Rightarrow> elem \<Rightarrow> scan" where
  "aff_step a st aff =
     (let aff_txt = py_or (etext aff) '''' in
      if is_pharma_affiliation (Some aff_txt) \<and> \<not> truthy (Some (company_aff st)) then
        let fname = py_or (findtext [Child ''ForeName''] a) '''';
            lname = py_or (findtext [Child ''LastName''] a) '''';
            email = extract_email (Some aff_txt)
        in \<lparr>non_acad_author = strip (fname @ '' '' @ lname),
            company_aff = aff_txt,
            corr_email = (if truthy (Some email) then email else corr_email st)\<rparr>
      else st)"

text \<open>\<open>affs = a.findall(".//AffiliationInfo/Affiliation")\<close>\<close>

definition affs :: "elem \<Rightarrow> elem list" where
  "affs a = findall [Descendant ''AffiliationInfo'', Child ''Affiliation''] a"

text \<open>\<open>authors = art.findall(".//AuthorList/Author")\<close>\<close>

definition authors :: "elem \<Rightarrow> elem list" where
  "authors art = findall [Descendant ''AuthorList'', Child ''Author''] art"

text \<open>The body of \<open>for a in authors\<close>.\<close>

definition author_step :: "scan \<Rightarrow> elem \<Rightarrow> scan" where
  "author_step st a = foldl (aff_step a) st (affs a)"

definition scan_authors :: "elem \<Rightarrow> scan" where
  "scan_authors art =
     foldl author_step \<lparr>non_acad_author = '''', company_aff = '''', corr_email = ''''\<rparr>
       (authors art)"

definition pub_date :: "elem \<Rightarrow> string" where
  "pub_date art =
     py_or (opt_or (findtext [Descendant ''PubDate'', Child ''Year''] art)
                   (findtext [Descendant ''ArticleDate'', Child ''Year''] art)) ''''"

text \<open>The body of \<open>for art in root.findall(".//PubmedArticle")\<close>: the result appended, if any.\<close>

definition parse_article :: "elem \<Rightarrow> article_result option" where
  "parse_article art =
     (let pmid = findtext [Descendant ''PMID''] art;
          title = findtext [Descendant ''ArticleTitle''] art;
          st = scan_authors art
      in if truthy (Some (company_aff st)) then
           Some \<lparr>PubmedID = py_or pmid '''',
                 Title = py_or title '''',
                 Publication_Date = pub_date art,
                 Company_Affiliation = company_aff st,
                 Non_academic_Author = non_acad_author st,
                 Corresponding_Author_Email = corr_email st\<rparr>
         else None)"

section \<open>Effects: the trace of a run\<close>

text \<open>
  Exceptions are values carrying their message. What a run does to the outside world is
  recorded as a trace of events, in order: lines printed, requests sent, pauses, the report.
  A debug line is recorded with the data it prints rather than with its formatted text.
\<close>

datatype exn = RequestException string | ParseError string | OSError string

fun exn_str :: "exn \<Rightarrow> string" where
  "exn_str (RequestException m) = m"
| "exn_str (ParseError m) = m"
| "exn_str (OSError m) = m"

datatype debug_line =
    DbgQuery string
  | DbgNumResults int
  | DbgOutputFile "string option"
  | DbgESearchUrl
  | DbgESearchParams string int
  | DbgFound nat
  | DbgFetching nat string
  | DbgMatched "string option" string string string

datatype event =
    Print string
  | Debug debug_line
  | PrintHelp
  | ESearch string int
  | EFetch string
  | Sleep
  | ToCsv string "article_result list"
  | PrintTable "article_result list"
  | Uncaught exn

fun is_efetch :: "event \<Rightarrow> bool" where
  "is_efetch (EFetch ids) = True"
| "is_efetch e = False"

fun is_sleep :: "event \<Rightarrow> bool" where
  "is_sleep Sleep = True"
| "is_sleep e = False"

fun is_debug :: "event \<Rightarrow> bool" where
  "is_debug (Debug d) = True"
| "is_debug e = False"

fun is_report :: "event \<Rightarrow> bool" where
  "is_report (ToCsv path rows) = True"
| "is_report (PrintTable rows) = True"
| "is_report e = False"

text \<open>
  The outside world: the search endpoint (the request, \<open>raise_for_status\<close> and the
  \<open>idlist\<close> of the JSON answer), the fetch endpoint (the request, \<open>raise_for_status\<close>
  and the text of the answer) as functions of the request, the XML parser
  \<open>ET.fromstring\<close>, and the file system under \<open>DataFrame.to_csv\<close>.
\<close>

record world =
  esearch :: "string \<Rightarrow> int \<Rightarrow> exn + string list"
  efetch :: "string \<Rightarrow> exn + string"
  fromstring :: "string \<Rightarrow> exn + elem"
  to_csv :: "string \<Rightarrow> article_result list \<Rightarrow> exn option"

section \<open>Identifier search and record fetcher\<close>

definition fetch_pmids ::
  "world \<Rightarrow> string \<Rightarrow> int \<Rightarrow> bool \<Rightarrow> event list \<Rightarrow> event list \<times> (exn + string list)" where
  "fetch_pmids w q retmax dbg tr =
     (let tr1 = tr @ (if dbg then [Debug DbgESearchUrl, Debug (DbgESearchParams q retmax)] else [])
                   @ [ESearch q retmax]
      in case esearch w q retmax of
           Inl e \<Rightarrow> (tr1, Inl e)
         | Inr pmids \<Rightarrow>
             (tr1 @ (if dbg then [Debug (DbgFound (length pmids))] else []), Inr pmids))"

text \<open>
  The loop \<open>for i in range(0, len(pmids), batch_size)\<close> from the index \<open>i\<close> on, with
  the list \<open>articles\<close> and the trace so far. \<open>raise_for_status\<close> leaves the loop with
  the exception; \<open>time.sleep(0.34)\<close> is the last statement of the body.
\<close>

definition batch_size :: nat where
  "batch_size = 50"

function fetch_loop ::
  "(string \<Rightarrow> exn + string) \<Rightarrow> bool \<Rightarrow> string list \<Rightarrow> nat \<Rightarrow> string list \<Rightarrow> event list
     \<Rightarrow> event list \<times> (exn + string list)" where
  "fetch_loop get dbg pmids i articles tr =
     (if i < length pmids then
        let batch_ids = join '','' (take batch_size (drop i pmids));
            tr1 = tr @ (if dbg then [Debug (DbgFetching (Suc (count_list batch_ids CHR '','')) batch_ids)]
                        else [])
                     @ [EFetch batch_ids]
        in case get batch_ids of
             Inl e \<Rightarrow> (tr1, Inl e)
           | Inr txt \<Rightarrow> fetch_loop get dbg pmids (i + batch_size) (articles @ [txt]) (tr1 @ [Sleep])
      else (tr, Inr articles))"
  by pat_completeness auto
termination
  by (relation "measure (\<lambda>(get, dbg, pmids, i, articles, tr). length pmids - i)")
     (auto simp: batch_size_def)

definition fetch_article_xml ::
  "world \<Rightarrow> string list \<Rightarrow> bool \<Rightarrow> event list \<Rightarrow> event list \<times> (exn + string list)" where
  "fetch_article_xml w pmids dbg tr = fetch_loop (efetch w) dbg pmids 0 [] tr"

section \<open>Parsing the batches\<close>

text \<open>One record entry: the result appended and, under \<open>debug\<close>, the line printed.\<close>

definition art_step ::
  "bool \<Rightarrow> article_result list \<times> event list \<Rightarrow> elem \<Rightarrow> article_result list \<times> event list" where
  "art_step dbg acc art =
     (case parse_article art of
        None \<Rightarrow> acc
      | Some r \<Rightarrow>
          (fst acc @ [r],
           snd acc @ (if dbg
                      then [Debug (DbgMatched (findtext [Descendant ''PMID''] art)
                              (Non_academic_Author r) (Company_Affiliation r)
                              (Corresponding_Author_Email r))]
                      else [])))"

text \<open>
  \<open>for xml_str in xml_strings\<close>: \<open>ET.fromstring\<close> raises on a batch that is not
  well-formed, and the exception leaves the function; the results so far are lost with it.
\<close>

fun parse_loop ::
  "(string \<Rightarrow> exn + elem) \<Rightarrow> bool \<Rightarrow> string list \<Rightarrow> article_result list \<Rightarrow> event list
     \<Rightarrow> event list \<times> (exn + article_result list)" where
  "parse_loop fs dbg [] results tr = (tr, Inr results)"
| "parse_loop fs dbg (xml_str # rest) results tr =
     (case fs xml_str of
        Inl e \<Rightarrow> (tr, Inl e)
      | Inr root \<Rightarrow>
          (case foldl (art_step dbg) (results, tr) (findall [Descendant ''PubmedArticle''] root) of
             (results', tr') \<Rightarrow> parse_loop fs dbg rest results' tr'))"

definition parse_articles ::
  "world \<Rightarrow> string list \<Rightarrow> bool \<Rightarrow> event list \<Rightarrow> event list \<times> (exn + article_result list)" where
  "parse_articles w xml_strings dbg tr = parse_loop (fromstring w) dbg xml_strings [] tr"

section \<open>The program\<close>

text \<open>The parsed command line.\<close>

record args =
  query :: "string list"
  num :: int
  filename :: "string option"
  debug :: bool

text \<open>The report: a CSV file when a path is given, a table on the console otherwise.\<close>

definition emit :: "world \<Rightarrow> string option \<Rightarrow> article_result list \<Rightarrow> event list \<Rightarrow> event list \<times> int" where
  "emit w out_file parsed tr =
     (if truthy out_file then
        (case to_csv w (the out_file) parsed of
           Some e \<Rightarrow> (tr @ [Uncaught e], 1)
         | None \<Rightarrow>
             (tr @ [ToCsv (the out_file) parsed,
                    Print (CHR 0x0A # ''Results saved to '' @ the out_file)], 0))
      else (tr @ [PrintTable parsed], 0))"

text \<open>\<open>main\<close>: the trace of the run and the exit status.\<close>

definition main :: "world \<Rightarrow> args \<Rightarrow> event list \<times> int" where
  "main w a =
     (if query a = [] then ([PrintHelp], 1)
      else
        let user_query = join '' '' (query a);
            dbg = debug a;
            nmax = num a;
            out_file = filename a;
            tr0 = (if dbg then [Debug (DbgQuery user_query), Debug (DbgNumResults nmax),
                                Debug (DbgOutputFile out_file)] else [])
        in case fetch_pmids w user_query nmax dbg tr0 of
             (tr1, Inl e) \<Rightarrow> (tr1 @ [Print (''Error fetching PMIDs: '' @ exn_str e)], 1)
           | (tr1, Inr pmids) \<Rightarrow>
               if pmids = [] then (tr1 @ [Print ''No articles found for the given query.''], 0)
               else
                 (case fetch_article_xml w pmids dbg tr1 of
                    (tr2, Inl e) \<Rightarrow>
                      (tr2 @ [Print (''Error fetching or parsing articles: '' @ exn_str e)], 1)
                  | (tr2, Inr xmls) \<Rightarrow>
                      (case parse_articles w xmls dbg tr2 of
                         (tr3, Inl e) \<Rightarrow>
                           (tr3 @ [Print (''Error fetching or parsing articles: '' @ exn_str e)], 1)
                       | (tr3, Inr parsed) \<Rightarrow>
                           if parsed = [] then
                             (tr3 @ [Print ''No matching articles with pharma/biotech affiliations found.''], 0)
                           else emit w out_file parsed tr3)))"

section \<open>Notions of the specification\<close>

text \<open>
  A string of the form \<open>user@host\<close>: word characters, dots and hyphens, at least one on
  each side of the \<open>@\<close>.
\<close>

definition email_like :: "string \<Rightarrow> bool" where
  "email_like m =
     (\<exists>u h. m = u @ CHR ''@'' # h \<and> u \<noteq> [] \<and> h \<noteq> [] \<and>
            list_all email_char u \<and> list_all email_char h)"

text \<open>
  A string contains a keyword of the list in some letter casing: one of its substrings
  is the keyword up to the case of the letters.
\<close>

definition contains_keyword :: "string \<Rightarrow> bool" where
  "contains_keyword aff =
     (\<exists>kw \<in> set PHARMA_KEYWORDS. \<exists>s. sublist s aff \<and> lower s = lower kw)"

text \<open>An affiliation element, an author and a record entry that qualify.\<close>

definition qualifies :: "elem \<Rightarrow> bool" where
  "qualifies aff = is_pharma_affiliation (etext aff)"

definition author_qualifies :: "elem \<Rightarrow> bool" where
  "author_qualifies a = list_ex qualifies (affs a)"

definition record_qualifies :: "elem \<Rightarrow> bool" where
  "record_qualifies art = list_ex author_qualifies (authors art)"

text \<open>The name of an author as the report gives it, and the identifier of a record entry.\<close>

definition author_name :: "elem \<Rightarrow> string" where
  "author_name a =
     strip (py_or (findtext [Child ''ForeName''] a) '''' @ '' '' @
            py_or (findtext [Child ''LastName''] a) '''')"

definition record_id :: "elem \<Rightarrow> string" where
  "record_id art = py_or (findtext [Descendant ''PMID''] art) ''''"

text \<open>The record entries of the parsed batches, in batch order, then in document order.\<close>

definition record_entries :: "elem list \<Rightarrow> elem list" where
  "record_entries roots = concat (map (findall [Descendant ''PubmedArticle'']) roots)"

text \<open>The \<open>k\<close>-th chunk (from 0) of at most 50 consecutive identifiers, and the number of chunks.\<close>

definition chunk :: "nat \<Rightarrow> string list \<Rightarrow> string list" where
  "chunk k pmids = take 50 (drop (50 * k) pmids)"

definition n_chunks :: "string list \<Rightarrow> nat" where
  "n_chunks pmids = (length pmids + 49) div 50"

section \<open>Example inputs\<close>

text \<open>
  A record entry with three authors: the first academic, the second with an academic
  affiliation followed by two company affiliations, the third with a company affiliation.
\<close>

definition example_author_1 :: elem where
  "example_author_1 =
     Elem ''Author'' None
       [Elem ''LastName'' (Some ''Roe'') [],
        Elem ''ForeName'' (Some ''Ann'') [],
        Elem ''AffiliationInfo'' None [Elem ''Affiliation'' (Some ''University of Oslo'') []]]"

definition example_author_2 :: elem where
  "example_author_2 =
     Elem ''Author'' None
       [Elem ''LastName'' (Some ''Doe'') [],
        Elem ''ForeName'' (Some ''J'') [],
        Elem ''AffiliationInfo'' None [Elem ''Affiliation'' (Some ''MIT'') []],
        Elem ''AffiliationInfo'' None [Elem ''Affiliation'' (Some ''Acme Inc, jdoe@acme.com'') []],
        Elem ''AffiliationInfo'' None [Elem ''Affiliation'' (Some ''Beta GmbH'') []]]"

definition example_author_3 :: elem where
  "example_author_3 =
     Elem ''Author'' None
       [Elem ''LastName'' (Some ''Poe'') [],
        Elem ''AffiliationInfo'' None [Elem ''Affiliation'' (Some ''Gamma Corp, poe@gamma.com'') []]]"

definition example_record :: elem where
  "example_record =
     Elem ''PubmedArticle'' None
       [Elem ''MedlineCitation'' None
          [Elem ''PMID'' (Some ''7'') [],
           Elem ''Article'' None
             [Elem ''Journal'' None
                [Elem ''JournalIssue'' None
                   [Elem ''PubDate'' None [Elem ''Year'' (Some ''2019'') []]]],
              Elem ''ArticleTitle'' (Some ''A trial'') [],
              Elem ''AuthorList'' None [example_author_1, example_author_2, example_author_3],
              Elem ''ArticleDate'' None [Elem ''Year'' (Some ''2020'') []]]]]"

text \<open>A record entry without a company affiliation.\<close>

definition academic_record :: elem where
  "academic_record =
     Elem ''PubmedArticle'' None
       [Elem ''MedlineCitation'' None
          [Elem ''PMID'' (Some ''8'') [],
           Elem ''Article'' None
             [Elem ''ArticleTitle'' (Some ''A survey'') [],
              Elem ''AuthorList'' None [example_author_1]]]]"

text \<open>
  A record entry whose article-level year element is there and empty, and whose article
  date has a year.
\<close>

definition empty_year_record :: elem where
  "empty_year_record =
     Elem ''PubmedArticle'' None
       [Elem ''MedlineCitation'' None
          [Elem ''PMID'' (Some ''9'') [],
           Elem ''Article'' None
             [Elem ''Journal'' None
                [Elem ''JournalIssue'' None
                   [Elem ''PubDate'' None [Elem ''Year'' None []]]],
              Elem ''AuthorList'' None [example_author_3],
              Elem ''ArticleDate'' None [Elem ''Year'' (Some ''2020'') []]]]]"

text \<open>Two batches; the second holds two record entries with the same identifier.\<close>

definition example_batch_1 :: elem where
  "example_batch_1 = Elem ''PubmedArticleSet'' None [academic_record, example_record]"

definition example_batch_2 :: elem where
  "example_batch_2 = Elem ''PubmedArticleSet'' None [empty_year_record, empty_year_record]"

text \<open>
  A world in which the search finds two identifiers, every fetch answers with the
  identifiers asked for, and the parser reads the text \<open>1\<close> as the first batch, the text
  \<open>2\<close> as the second batch and rejects every other text.
\<close>

definition example_world :: world where
  "example_world =
     \<lparr>esearch = (\<lambda>q n. if q = ''nothing'' then Inr [] else Inr [''1'', ''2'']),
      efetch = (\<lambda>ids. Inr ids),
      fromstring = (\<lambda>s. if s = ''1'' then Inr example_batch_1
                         else if s = ''2'' then Inr example_batch_2
                         else Inl (ParseError ''syntax error: line 1, column 0'')),
      to_csv = (\<lambda>path rows. None)\<rparr>"

text \<open>
  A world in which the search finds 51 identifiers, the fetch of the first chunk answers
  with the first batch and the fetch of the second chunk with a text that is not
  well-formed.
\<close>

definition example_pmids :: "string list" where
  "example_pmids = replicate 50 ''7'' @ [''x'']"

definition broken_world :: world where
  "broken_world =
     \<lparr>esearch = (\<lambda>q n. Inr example_pmids),
      efetch = (\<lambda>ids. if ids = ''x'' then Inr ''<broken'' else Inr ''1''),
      fromstring = fromstring example_world,
      to_csv = (\<lambda>path rows. None)\<rparr>"

definition example_args :: args where
  "example_args = \<lparr>query = [''cancer'', ''treatment''], num = 100, filename = None, debug = True\<rparr>"

section \<open>Strings: the substring test\<close>

lemma startswith_prefix: "startswith s kw = prefix kw s"
  by (induction s kw rule: startswith.induct) auto

lemma str_in_sublist: "str_in kw s = sublist kw s"
  by (induction s) (auto simp: startswith_prefix sublist_Cons_right)

lemma sublist_map_iff: "sublist ys (map f xs) = (\<exists>zs. sublist zs xs \<and> map f zs = ys)"
proof
  assume "sublist ys (map f xs)"
  then obtain ps ss where "map f xs = ps @ ys @ ss" by (auto simp: sublist_def)
  then obtain us vs where 1: "xs = us @ vs" "ys @ ss = map f vs"
    by (auto simp: map_eq_append_conv)
  from 1(2) obtain b c where 2: "vs = b @ c" "map f b = ys"
    by (auto simp: append_eq_map_conv)
  from 1(1) 2(1) have "sublist b xs" by simp
  with 2(2) show "\<exists>zs. sublist zs xs \<and> map f zs = ys" by blast
next
  assume "\<exists>zs. sublist zs xs \<and> map f zs = ys"
  then show "sublist ys (map f xs)" using map_mono_sublist by blast
qed

lemma py_or_Some_empty [simp]: "py_or (Some s) '''' = s"
  by (simp add: py_or_def)

lemma py_or_None [simp]: "py_or None d = d"
  by (simp add: py_or_def)

text \<open>The tables on characters beyond ASCII: a lowered letter, a no-break space stripped.\<close>

lemma lower_latin1: "lower (CHR 0xC0 # ''BC'') = CHR 0xE0 # ''bc''"
  by (simp add: lower_def lower_char_def ascii_uppercase_def ascii_lowercase_def
      latin1_uppercase_def latin1_lowercase_def)

lemma strip_no_break_space: "strip (''Ann Lee'' @ [CHR 0xA0]) = ''Ann Lee''"
  by (simp add: strip_def is_space_def)

lemma keywords_lower: "kw \<in> set PHARMA_KEYWORDS \<Longrightarrow> lower kw = kw"
  by (auto simp: PHARMA_KEYWORDS_def lower_def lower_char_def ascii_uppercase_def ascii_lowercase_def
      latin1_uppercase_def latin1_lowercase_def)

lemma keywords_nonempty: "kw \<in> set PHARMA_KEYWORDS \<Longrightarrow> kw \<noteq> []"
  by (auto simp: PHARMA_KEYWORDS_def)

lemma is_pharma_sublist:
  "is_pharma_affiliation aff = (\<exists>kw \<in> set PHARMA_KEYWORDS. sublist kw (lower (py_or aff '''')))"
  by (simp add: is_pharma_affiliation_def list_ex_iff str_in_sublist)

lemma is_pharma_nonempty: "is_pharma_affiliation (Some t) \<Longrightarrow> t \<noteq> []"
  by (auto simp: is_pharma_sublist lower_def dest: keywords_nonempty)

lemma is_pharma_None_False: "\<not> is_pharma_affiliation None"
  by (auto simp: is_pharma_sublist lower_def dest: keywords_nonempty)

text \<open>
  C3. \<open>is_pharma_affiliation\<close> returns true on exactly the strings that contain, in
  some letter casing, a keyword of the list of sixteen, and false on the others.
\<close>

theorem is_pharma_affiliation_iff_contains_keyword:
  "is_pharma_affiliation (Some aff) = contains_keyword aff \<and>
   PHARMA_KEYWORDS =
     [''pharma'', ''biotech'', ''biosciences'', ''therapeutics'', ''diagnostics'',
      ''life sciences'', ''laboratories'', ''inc'', ''corp'', ''ltd'', ''gmbh'',
      ''pharmaceutical'', ''genomics'', ''healthcare'', ''bioscience'', ''biopharma'']"
proof
  have "is_pharma_affiliation (Some aff) =
          (\<exists>kw \<in> set PHARMA_KEYWORDS. sublist kw (map lower_char aff))"
    by (simp add: is_pharma_sublist lower_def)
  also have "\<dots> = (\<exists>kw \<in> set PHARMA_KEYWORDS. \<exists>s. sublist s aff \<and> map lower_char s = kw)"
    by (simp only: sublist_map_iff)
  also have "\<dots> = (\<exists>kw \<in> set PHARMA_KEYWORDS. \<exists>s. sublist s aff \<and> lower s = lower kw)"
    using keywords_lower by (auto simp: lower_def)
  finally show "is_pharma_affiliation (Some aff) = contains_keyword aff"
    by (simp add: contains_keyword_def)
next
  show "PHARMA_KEYWORDS =
     [''pharma'', ''biotech'', ''biosciences'', ''therapeutics'', ''diagnostics'',
      ''life sciences'', ''laboratories'', ''inc'', ''corp'', ''ltd'', ''gmbh'',
      ''pharmaceutical'', ''genomics'', ''healthcare'', ''bioscience'', ''biopharma'']"
    by (simp add: PHARMA_KEYWORDS_def)
qed

theorem is_pharma_affiliation_iff_contains_keyword_witness:
  "is_pharma_affiliation (Some ''Acme BioTECH, Basel'') \<and> contains_keyword ''Acme BioTECH, Basel'' \<and>
   \<not> is_pharma_affiliation (Some ''University of Oslo'') \<and> \<not> contains_keyword ''University of Oslo''"
proof -
  have 1: "is_pharma_affiliation (Some ''Acme BioTECH, Basel'')"
    by (simp add: is_pharma_affiliation_def PHARMA_KEYWORDS_def lower_def lower_char_def
        ascii_uppercase_def ascii_lowercase_def latin1_uppercase_def latin1_lowercase_def)
  have 2: "\<not> is_pharma_affiliation (Some ''University of Oslo'')"
    by (simp add: is_pharma_affiliation_def PHARMA_KEYWORDS_def lower_def lower_char_def
        ascii_uppercase_def ascii_lowercase_def latin1_uppercase_def latin1_lowercase_def)
  from 1 2 show ?thesis
    using is_pharma_affiliation_iff_contains_keyword [of "''Acme BioTECH, Basel''"]
      is_pharma_affiliation_iff_contains_keyword [of "''University of Oslo''"]
    by blast
qed

text \<open>
  C10. On \<open>None\<close> and on the empty string \<open>is_pharma_affiliation\<close> returns false and
  \<open>extract_email\<close> returns the empty string; an affiliation element with no text is read
  as the empty string, and the step of the parser on it returns the variables of the scan
  unchanged, so it produces no match.
\<close>

theorem missing_input_total:
  "\<not> is_pharma_affiliation None \<and> \<not> is_pharma_affiliation (Some '''') \<and>
   extract_email None = '''' \<and> extract_email (Some '''') = '''' \<and>
   py_or (etext (Elem t None cs)) '''' = '''' \<and>
   aff_step a st (Elem t None cs) = st"
proof -
  have e: "\<not> is_pharma_affiliation (Some '''')"
    using is_pharma_nonempty by blast
  then show ?thesis
    by (simp add: is_pharma_None_False extract_email_def truthy_def aff_step_def)
qed

theorem missing_input_total_witness:
  "aff_step (Elem ''Author'' None [])
     \<lparr>non_acad_author = ''J Doe'', company_aff = ''Acme Inc'', corr_email = ''''\<rparr>
     (Elem ''Affiliation'' None []) =
   \<lparr>non_acad_author = ''J Doe'', company_aff = ''Acme Inc'', corr_email = ''''\<rparr> \<and>
   aff_step (Elem ''Author'' None [])
     \<lparr>non_acad_author = '''', company_aff = '''', corr_email = ''''\<rparr>
     (Elem ''Affiliation'' None []) =
   \<lparr>non_acad_author = '''', company_aff = '''', corr_email = ''''\<rparr>"
  using missing_input_total [of "''Affiliation''" "[]" "Elem ''Author'' None []"]
  by simp

section \<open>The email pattern\<close>

lemma at_not_email_char: "\<not> email_char CHR ''@''"
  by (simp add: email_char_def word_char_def latin1_word_def ascii_lowercase_def ascii_uppercase_def digits_def)

lemma try_lengths_const: "try_lengths (\<lambda>s. Some 0) s n = (if n = 0 then None else Some n)"
  by (cases n) auto

lemma takeWhile_drop_hd:
  assumes "i < length (takeWhile P s)"
  shows "drop i s \<noteq> [] \<and> P (hd (drop i s))"
proof -
  have le: "length (takeWhile P s) \<le> length s" by (rule length_takeWhile_le)
  with assms have i: "i < length s" by simp
  have "takeWhile P s ! i = s ! i" using assms by (rule takeWhile_nth)
  moreover have "takeWhile P s ! i \<in> set (takeWhile P s)" using assms by simp
  ultimately have "P (s ! i)" using set_takeWhileD by metis
  with i show ?thesis by (simp add: hd_drop_conv_nth)
qed

lemma try_lengths_run:
  assumes k: "\<And>t. t \<noteq> [] \<Longrightarrow> P (hd t) \<Longrightarrow> k t = None"
  shows "n \<le> length (takeWhile P s) \<Longrightarrow>
     try_lengths k s n =
       (if n = length (takeWhile P s) \<and> 0 < n
        then (case k (dropWhile P s) of Some m \<Rightarrow> Some (n + m) | None \<Rightarrow> None)
        else None)"
proof (induction n)
  case 0
  then show ?case by simp
next
  case (Suc n)
  then have IH: "try_lengths k s n = None" by simp
  show ?case
  proof (cases "Suc n = length (takeWhile P s)")
    case True
    then have len: "length (takeWhile P s) = Suc n" by simp
    then have "drop (Suc n) s = dropWhile P s" by (simp add: dropWhile_eq_drop)
    then show ?thesis using IH by (simp add: len split: option.splits)
  next
    case False
    with Suc.prems have "Suc n < length (takeWhile P s)" by simp
    then have "k (drop (Suc n) s) = None" using takeWhile_drop_hd k by blast
    with False IH show ?thesis by simp
  qed
qed

lemma match_tail:
  "match_here [Lit CHR ''@'', Plus P] t =
     (case t of [] \<Rightarrow> None
      | x # xs \<Rightarrow> if x = CHR ''@'' \<and> takeWhile P xs \<noteq> [] then Some (Suc (length (takeWhile P xs))) else None)"
  by (simp add: try_lengths_const split: list.splits)

lemma match_here_email:
  "match_here EMAIL_RE s =
     (case dropWhile email_char s of
        [] \<Rightarrow> None
      | x # xs \<Rightarrow>
          if takeWhile email_char s \<noteq> [] \<and> x = CHR ''@'' \<and> takeWhile email_char xs \<noteq> []
          then Some (length (takeWhile email_char s) + Suc (length (takeWhile email_char xs)))
          else None)"
proof -
  let ?k = "match_here [Lit CHR ''@'', Plus email_char]"
  let ?n = "length (takeWhile email_char s)"
  have k: "\<And>t. t \<noteq> [] \<Longrightarrow> email_char (hd t) \<Longrightarrow> ?k t = None"
    using at_not_email_char by (auto simp: match_tail split: list.splits)
  have m: "match_here EMAIL_RE s = try_lengths ?k s ?n"
    by (simp add: EMAIL_RE_def)
  have r: "try_lengths ?k s ?n =
      (if 0 < ?n then (case ?k (dropWhile email_char s) of Some m \<Rightarrow> Some (?n + m) | None \<Rightarrow> None)
       else None)"
    using try_lengths_run [where k = ?k and P = email_char and s = s and n = ?n, OF k] by simp
  have kd: "?k (dropWhile email_char s) =
     (case dropWhile email_char s of [] \<Rightarrow> None
      | x # xs \<Rightarrow> if x = CHR ''@'' \<and> takeWhile email_char xs \<noteq> []
                  then Some (Suc (length (takeWhile email_char xs))) else None)"
    by (rule match_tail)
  show ?thesis
  proof (cases "dropWhile email_char s")
    case Nil
    show ?thesis unfolding m r kd Nil by simp
  next
    case (Cons x xs)
    show ?thesis unfolding m r kd Cons
      by (cases "takeWhile email_char s = []") (simp_all add: try_lengths_const)
  qed
qed

text \<open>What a match at the start of the input is: the longest email-like prefix.\<close>

lemma match_here_email_Some:
  assumes "match_here EMAIL_RE s = Some n"
  shows "\<exists>u h r. s = u @ CHR ''@'' # h @ r \<and> u \<noteq> [] \<and> h \<noteq> [] \<and>
           list_all email_char u \<and> list_all email_char h \<and>
           (r = [] \<or> \<not> email_char (hd r)) \<and> n = length (u @ CHR ''@'' # h)"
proof -
  let ?u = "takeWhile email_char s"
  from assms obtain x xs where d: "dropWhile email_char s = x # xs"
    and c: "?u \<noteq> []" "x = CHR ''@''" "takeWhile email_char xs \<noteq> []"
    and n: "n = length ?u + Suc (length (takeWhile email_char xs))"
    by (auto simp: match_here_email split: list.splits if_splits)
  let ?h = "takeWhile email_char xs" and ?r = "dropWhile email_char xs"
  have "s = ?u @ dropWhile email_char s" by simp
  also have "\<dots> = ?u @ CHR ''@'' # ?h @ ?r" using d c by simp
  finally have s: "s = ?u @ CHR ''@'' # ?h @ ?r" .
  have u: "list_all email_char ?u" by (simp add: list_all_iff) (meson set_takeWhileD)
  have h: "list_all email_char ?h" by (simp add: list_all_iff) (meson set_takeWhileD)
  have r: "?r = [] \<or> \<not> email_char (hd ?r)" using hd_dropWhile by blast
  from s c u h r n show ?thesis by (intro exI [of _ ?u] exI [of _ ?h] exI [of _ ?r]) simp
qed

lemma takeWhile_run:
  "list_all P u \<Longrightarrow> \<not> P c \<Longrightarrow> takeWhile P (u @ c # r) = u \<and> dropWhile P (u @ c # r) = c # r"
  by (induction u) auto

lemma takeWhile_run_end:
  "list_all P h \<Longrightarrow> r = [] \<or> \<not> P (hd r) \<Longrightarrow> takeWhile P (h @ r) = h"
  by (induction h) (auto simp: takeWhile_eq_Nil_iff)

lemma match_here_email_decomp:
  assumes "u \<noteq> []" "h \<noteq> []" "list_all email_char u" "list_all email_char h"
    and "r = [] \<or> \<not> email_char (hd r)"
  shows "match_here EMAIL_RE (u @ CHR ''@'' # h @ r) = Some (length (u @ CHR ''@'' # h))"
proof -
  have 1: "takeWhile email_char (u @ CHR ''@'' # h @ r) = u"
    "dropWhile email_char (u @ CHR ''@'' # h @ r) = CHR ''@'' # h @ r"
    using takeWhile_run [OF assms(3) at_not_email_char] by auto
  have 2: "takeWhile email_char (h @ r) = h"
    using takeWhile_run_end [OF assms(4,5)] .
  show ?thesis using assms(1,2) by (simp add: match_here_email 1 2)
qed

lemma match_here_email_prefix:
  assumes "email_like m" "prefix m s"
  shows "\<exists>n. match_here EMAIL_RE s = Some n \<and> length m \<le> n"
proof -
  from assms obtain u h r where s: "s = u @ CHR ''@'' # h @ r" and m: "m = u @ CHR ''@'' # h"
    and c: "u \<noteq> []" "h \<noteq> []" "list_all email_char u" "list_all email_char h"
    by (auto simp: email_like_def prefix_def)
  let ?h = "h @ takeWhile email_char r" and ?r = "dropWhile email_char r"
  have h: "?h \<noteq> []" "list_all email_char ?h"
    using c by (auto simp: list_all_iff dest: set_takeWhileD)
  have r: "?r = [] \<or> \<not> email_char (hd ?r)" using hd_dropWhile by blast
  have "s = u @ CHR ''@'' # ?h @ ?r" using s by simp
  then have "match_here EMAIL_RE s = Some (length (u @ CHR ''@'' # ?h))"
    using match_here_email_decomp [OF c(1) h(1) c(3) h(2) r] by simp
  then show ?thesis using m by simp
qed

text \<open>The search: the first start position, from the left, at which the pattern matches.\<close>

lemma re_search_Some:
  "re_search p s = Some m \<Longrightarrow>
     \<exists>i n. i \<le> length s \<and> match_here p (drop i s) = Some n \<and> m = take n (drop i s) \<and>
           (\<forall>j < i. match_here p (drop j s) = None)"
proof (induction s)
  case Nil
  then show ?case by (auto split: option.splits)
next
  case (Cons c s)
  show ?case
  proof (cases "match_here p (c # s)")
    case (Some n)
    with Cons.prems have "m = take n (c # s)" by simp
    with Some show ?thesis by (intro exI [of _ 0] exI [of _ n]) simp
  next
    case None
    with Cons.prems have "re_search p s = Some m" by simp
    then obtain i n where i: "i \<le> length s" "match_here p (drop i s) = Some n"
      "m = take n (drop i s)" "\<forall>j < i. match_here p (drop j s) = None"
      using Cons.IH by blast
    have "\<forall>j < Suc i. match_here p (drop j (c # s)) = None"
    proof (intro allI impI)
      fix j assume "j < Suc i"
      then show "match_here p (drop j (c # s)) = None"
        using None i(4) by (cases j) auto
    qed
    with i(1-3) show ?thesis by (intro exI [of _ "Suc i"] exI [of _ n]) simp
  qed
qed

lemma re_search_None:
  "re_search p s = None \<Longrightarrow> match_here p (drop i s) = None"
proof (induction s arbitrary: i)
  case Nil
  then show ?case by (auto split: option.splits)
next
  case (Cons c s)
  then show ?case by (cases i) (auto split: option.splits)
qed

lemma sublist_drop_iff: "sublist m s = (\<exists>i. prefix m (drop i s))"
proof
  assume "sublist m s"
  then obtain ps ss where "s = ps @ m @ ss" by (auto simp: sublist_def)
  then have "prefix m (drop (length ps) s)" by simp
  then show "\<exists>i. prefix m (drop i s)" ..
next
  assume "\<exists>i. prefix m (drop i s)"
  then obtain i where "prefix m (drop i s)" ..
  then have "sublist m (drop i s)" by simp
  then show "sublist m s" using sublist_drop sublist_order.order_trans by blast
qed

lemma email_like_nonempty: "email_like m \<Longrightarrow> m \<noteq> []"
  by (auto simp: email_like_def)

lemma extract_email_search:
  "text \<noteq> [] \<Longrightarrow> extract_email (Some text) =
     (case re_search EMAIL_RE text of Some m \<Rightarrow> m | None \<Rightarrow> [])"
  by (simp add: extract_email_def truthy_def)

text \<open>The result of the search, when some email-like string occurs in the text.\<close>

lemma re_search_email:
  assumes "email_like m0" "prefix m0 (drop i0 text)"
  shows "\<exists>i n. re_search EMAIL_RE text = Some (take n (drop i text)) \<and>
           match_here EMAIL_RE (drop i text) = Some n \<and>
           (\<forall>j < i. match_here EMAIL_RE (drop j text) = None)"
proof -
  from assms obtain n0 where "match_here EMAIL_RE (drop i0 text) = Some n0"
    using match_here_email_prefix by blast
  then have "re_search EMAIL_RE text \<noteq> None"
    using re_search_None [of EMAIL_RE "text" i0] by auto
  then obtain m where "re_search EMAIL_RE text = Some m" by auto
  then show ?thesis using re_search_Some [of EMAIL_RE "text" m] by auto
qed

lemma match_is_email_like:
  assumes "match_here EMAIL_RE s = Some n"
  shows "email_like (take n s) \<and> prefix (take n s) s \<and> length (take n s) = n"
proof -
  from match_here_email_Some [OF assms] obtain u h r where
    s: "s = u @ CHR ''@'' # h @ r" and c: "u \<noteq> []" "h \<noteq> []" "list_all email_char u"
      "list_all email_char h" and n: "n = length (u @ CHR ''@'' # h)"
    by blast
  from s n have "take n s = u @ CHR ''@'' # h" by simp
  with c n s show ?thesis by (auto simp: email_like_def take_is_prefix)
qed

lemma no_match_no_prefix:
  "match_here EMAIL_RE s = None \<Longrightarrow> email_like m \<Longrightarrow> \<not> prefix m s"
  using match_here_email_prefix by fastforce

lemma no_search_no_sublist:
  "re_search EMAIL_RE s = None \<Longrightarrow> email_like m \<Longrightarrow> \<not> sublist m s"
  using no_match_no_prefix re_search_None sublist_drop_iff by blast

lemmas email_eval =
  extract_email_def truthy_def EMAIL_RE_def email_char_def word_char_def latin1_word_def
  ascii_lowercase_def ascii_uppercase_def digits_def

text \<open>
  C9. When the text contains email-like substrings, \<open>extract_email\<close> returns one of
  them that starts at the smallest index at which any of them starts (the leftmost one),
  and the longest of those that start there.
\<close>

theorem extract_email_leftmost:
  assumes "email_like m0" and "sublist m0 text"
  shows "\<exists>i. prefix (extract_email (Some text)) (drop i text) \<and>
             email_like (extract_email (Some text)) \<and>
             (\<forall>j m. email_like m \<and> prefix m (drop j text) \<longrightarrow>
                    i \<le> j \<and> (j = i \<longrightarrow> length m \<le> length (extract_email (Some text))))"
proof -
  from assms obtain i0 where i0: "prefix m0 (drop i0 text)"
    by (auto simp: sublist_drop_iff)
  from assms have ne: "text \<noteq> []" using email_like_nonempty by auto
  from re_search_email [OF assms(1) i0] obtain i n where
    r: "re_search EMAIL_RE text = Some (take n (drop i text))"
    and mi: "match_here EMAIL_RE (drop i text) = Some n"
    and first: "\<forall>j < i. match_here EMAIL_RE (drop j text) = None"
    by blast
  let ?r = "take n (drop i text)"
  have e: "extract_email (Some text) = ?r" using ne r by (simp add: extract_email_search)
  have l: "email_like ?r" "prefix ?r (drop i text)" "length ?r = n"
    using match_is_email_like [OF mi] by auto
  have "i \<le> j \<and> (j = i \<longrightarrow> length m \<le> length ?r)"
    if "email_like m \<and> prefix m (drop j text)" for j m
  proof -
    from that obtain n' where n': "match_here EMAIL_RE (drop j text) = Some n'" "length m \<le> n'"
      using match_here_email_prefix by blast
    have "i \<le> j" using first n'(1) by (cases "j < i") auto
    moreover have "length m \<le> length ?r" if "j = i" using that n' mi l(3) by simp
    ultimately show ?thesis by blast
  qed
  with l show ?thesis unfolding e by blast
qed

theorem extract_email_leftmost_witness:
  "email_like ''x-y@z.org'' \<and> sublist ''x-y@z.org'' ''foo @bar a@b.c x-y@z.org'' \<and>
   extract_email (Some ''foo @bar a@b.c x-y@z.org'') = ''a@b.c'' \<and>
   prefix ''a@b.c'' (drop 9 ''foo @bar a@b.c x-y@z.org'') \<and>
   email_like ''x@y.z'' \<and> sublist ''x@y.z'' (CHR 0xE9 # ''@b.c x@y.z'') \<and>
   extract_email (Some (CHR 0xE9 # ''@b.c x@y.z'')) = CHR 0xE9 # ''@b.c'' \<and>
   prefix (CHR 0xE9 # ''@b.c'') (drop 0 (CHR 0xE9 # ''@b.c x@y.z''))"
proof -
  have 1: "email_like ''x-y@z.org''"
    unfolding email_like_def
    by (intro exI [of _ "''x-y''"] exI [of _ "''z.org''"]) (simp add: email_eval)
  have 2: "sublist ''x-y@z.org'' ''foo @bar a@b.c x-y@z.org''"
    by (simp add: str_in_sublist [symmetric])
  have 3: "extract_email (Some ''foo @bar a@b.c x-y@z.org'') = ''a@b.c''"
    by (simp add: email_eval)
  have 4: "email_like ''x@y.z''"
    unfolding email_like_def
    by (intro exI [of _ "''x''"] exI [of _ "''y.z''"]) (simp add: email_eval)
  have 5: "sublist ''x@y.z'' (CHR 0xE9 # ''@b.c x@y.z'')"
    by (simp add: str_in_sublist [symmetric])
  have 6: "extract_email (Some (CHR 0xE9 # ''@b.c x@y.z'')) = CHR 0xE9 # ''@b.c''"
    by (simp add: email_eval)
  from extract_email_leftmost [OF 1 2] have
    "\<exists>i. prefix (extract_email (Some ''foo @bar a@b.c x-y@z.org'')) (drop i ''foo @bar a@b.c x-y@z.org'')"
    by blast
  moreover from extract_email_leftmost [OF 4 5] have
    "\<exists>i. prefix (extract_email (Some (CHR 0xE9 # ''@b.c x@y.z''))) (drop i (CHR 0xE9 # ''@b.c x@y.z''))"
    by blast
  ultimately show ?thesis using 1 2 3 4 5 6 by simp
qed

text \<open>
  C4, as amended. When an email-like string occurs in the text at an index before which
  no email-like string starts, and it is not followed there by a further word character,
  dot or hyphen, \<open>extract_email\<close> returns exactly that string; when no email-like
  string occurs in the text, it returns the empty string.
\<close>

theorem extract_email_exact:
  "(email_like m \<and> prefix m (drop i text) \<and>
      (\<forall>j m'. j < i \<and> email_like m' \<longrightarrow> \<not> prefix m' (drop j text)) \<and>
      (\<forall>c. prefix (m @ [c]) (drop i text) \<longrightarrow> \<not> email_char c)
    \<longrightarrow> extract_email (Some text) = m) \<and>
   ((\<forall>m. email_like m \<longrightarrow> \<not> sublist m text) \<longrightarrow> extract_email (Some text) = '''')"
proof (intro conjI impI)
  assume a: "email_like m \<and> prefix m (drop i text) \<and>
      (\<forall>j m'. j < i \<and> email_like m' \<longrightarrow> \<not> prefix m' (drop j text)) \<and>
      (\<forall>c. prefix (m @ [c]) (drop i text) \<longrightarrow> \<not> email_char c)"
  then have m: "email_like m" "prefix m (drop i text)" by auto
  have ne: "text \<noteq> []" using m email_like_nonempty by auto
  from re_search_email [OF m] obtain i' n where
    r: "re_search EMAIL_RE text = Some (take n (drop i' text))"
    and mi: "match_here EMAIL_RE (drop i' text) = Some n"
    and first: "\<forall>j < i'. match_here EMAIL_RE (drop j text) = None"
    by blast
  from m obtain n0 where n0: "match_here EMAIL_RE (drop i text) = Some n0" "length m \<le> n0"
    using match_here_email_prefix by blast
  have "\<not> i' < i"
  proof
    assume "i' < i"
    moreover have "email_like (take n (drop i' text))" "prefix (take n (drop i' text)) (drop i' text)"
      using match_is_email_like [OF mi] by auto
    ultimately show False using a by blast
  qed
  moreover have "\<not> i < i'" using first n0(1) by auto
  ultimately have i: "i' = i" by simp
  with mi n0 have n: "n0 = n" by simp
  from match_here_email_Some [OF n0(1)] obtain u h r where
    s: "drop i text = u @ CHR ''@'' # h @ r" and c: "u \<noteq> []" "h \<noteq> []" "list_all email_char u"
      "list_all email_char h" and len: "n0 = length (u @ CHR ''@'' # h)"
    by blast
  let ?M = "u @ CHR ''@'' # h"
  have M: "take n (drop i text) = ?M" using s len n by simp
  have "prefix m ?M" using m(2) n0(2) s len
    by (metis M n prefix_length_prefix take_is_prefix length_take min.absorb2 prefix_length_le)
  then obtain z where z: "?M = m @ z" by (auto simp: prefix_def)
  from m(1) obtain u' h' where m': "m = u' @ CHR ''@'' # h'" "list_all email_char u'"
    by (auto simp: email_like_def)
  have "takeWhile email_char (u @ CHR ''@'' # h) = u"
    using takeWhile_run [OF c(3) at_not_email_char] by blast
  moreover have "takeWhile email_char (u' @ CHR ''@'' # (h' @ z)) = u'"
    using takeWhile_run [OF m'(2) at_not_email_char] by blast
  ultimately have "u' = u" using z m'(1) by simp
  with z m'(1) have h: "h = h' @ z" by simp
  have "z = []"
  proof (rule ccontr)
    assume "z \<noteq> []"
    then obtain c' z' where z': "z = c' # z'" by (cases z) auto
    with h c(4) have "email_char c'" by simp
    moreover have "prefix (m @ [c']) (drop i text)"
    proof -
      have "drop i text = (u @ CHR ''@'' # h) @ r" using s by simp
      also have "\<dots> = (m @ [c']) @ (z' @ r)" unfolding z z' by simp
      finally show ?thesis by (metis prefixI)
    qed
    ultimately show False using a by blast
  qed
  with z M have "take n (drop i text) = m" by simp
  with r i ne show "extract_email (Some text) = m" by (simp add: extract_email_search)
next
  assume a: "\<forall>m. email_like m \<longrightarrow> \<not> sublist m text"
  show "extract_email (Some text) = ''''"
  proof (cases "text = []")
    case True
    then show ?thesis by (simp add: extract_email_def truthy_def)
  next
    case False
    have "re_search EMAIL_RE text = None"
    proof (rule ccontr)
      assume "re_search EMAIL_RE text \<noteq> None"
      then obtain m where "re_search EMAIL_RE text = Some m" by auto
      from re_search_Some [OF this] obtain i n where
        "match_here EMAIL_RE (drop i text) = Some n" "m = take n (drop i text)" by blast
      then have "email_like m" "prefix m (drop i text)"
        using match_is_email_like by auto
      then show False using a sublist_drop_iff by blast
    qed
    with False show ?thesis by (simp add: extract_email_search)
  qed
qed


theorem extract_email_exact_witness:
  "extract_email (Some ''to: j.doe@acme.com, Boston'') = ''j.doe@acme.com'' \<and>
   extract_email (Some (''Ren'' @ CHR 0xE9 # ''@acme.com'')) = ''Ren'' @ CHR 0xE9 # ''@acme.com'' \<and>
   extract_email (Some ''no address here'') = ''''"
proof -
  let ?t = "''to: j.doe@acme.com, Boston''"
  let ?r = "''Ren'' @ CHR 0xE9 # ''@acme.com''"
  have 1: "email_like ''j.doe@acme.com''"
    unfolding email_like_def
    by (intro exI [of _ "''j.doe''"] exI [of _ "''acme.com''"]) (simp add: email_eval)
  have 2: "prefix ''j.doe@acme.com'' (drop 4 ?t)"
    by simp
  have 3: "\<forall>j m'. j < 4 \<and> email_like m' \<longrightarrow> \<not> prefix m' (drop j ?t)"
  proof (intro allI impI)
    fix j :: nat and m'
    assume a: "j < 4 \<and> email_like m'"
    then have "j = 0 \<or> j = 1 \<or> j = 2 \<or> j = 3" by auto
    then have "match_here EMAIL_RE (drop j ?t) = None"
      by (auto simp: email_eval)
    with a show "\<not> prefix m' (drop j ?t)" using no_match_no_prefix by blast
  qed
  have 4: "\<forall>c. prefix (''j.doe@acme.com'' @ [c]) (drop 4 ?t) \<longrightarrow> \<not> email_char c"
    by (simp add: email_eval)
  have 5: "\<forall>m. email_like m \<longrightarrow> \<not> sublist m ''no address here''"
  proof (intro allI impI)
    fix m assume "email_like m"
    moreover have "re_search EMAIL_RE ''no address here'' = None"
      by (simp add: email_eval)
    ultimately show "\<not> sublist m ''no address here''" using no_search_no_sublist by blast
  qed
  have 6: "email_like ?r"
    unfolding email_like_def
    by (intro exI [of _ "''Ren'' @ [CHR 0xE9]"] exI [of _ "''acme.com''"]) (simp add: email_eval)
  have 7: "prefix ?r (drop 0 ?r)" by simp
  have 8: "\<forall>j m'. j < (0::nat) \<and> email_like m' \<longrightarrow> \<not> prefix m' (drop j ?r)" by simp
  have 9: "\<forall>c. prefix (?r @ [c]) (drop 0 ?r) \<longrightarrow> \<not> email_char c" by simp
  from 1 2 3 4 have "extract_email (Some ?t) = ''j.doe@acme.com''"
    using extract_email_exact [of "''j.doe@acme.com''" 4 ?t] by blast
  moreover from 6 7 8 9 have "extract_email (Some ?r) = ?r"
    using extract_email_exact [of ?r 0 ?r] by blast
  moreover from 5 have "extract_email (Some ''no address here'') = ''''"
    using extract_email_exact [of "''x''" 0 "''no address here''"] by blast
  ultimately show ?thesis by simp
qed

text \<open>
  C4 as stated fails: the first text below contains \<open>c@d\<close>, and the call returns
  \<open>a@b\<close>; the second text contains \<open>jdoe@acme.com\<close>, and the call returns it with the
  full stop that follows.
\<close>

theorem extract_email_exact_counterexample:
  "email_like ''c@d'' \<and> sublist ''c@d'' ''a@b c@d'' \<and>
   extract_email (Some ''a@b c@d'') = ''a@b'' \<and> ''a@b'' \<noteq> ''c@d'' \<and>
   email_like ''jdoe@acme.com'' \<and> sublist ''jdoe@acme.com'' ''mail jdoe@acme.com.'' \<and>
   extract_email (Some ''mail jdoe@acme.com.'') = ''jdoe@acme.com.'' \<and>
   ''jdoe@acme.com.'' \<noteq> ''jdoe@acme.com''"
proof -
  have 1: "email_like ''c@d''"
    unfolding email_like_def
    by (intro exI [of _ "''c''"] exI [of _ "''d''"]) (simp add: email_eval)
  have 2: "email_like ''jdoe@acme.com''"
    unfolding email_like_def
    by (intro exI [of _ "''jdoe''"] exI [of _ "''acme.com''"]) (simp add: email_eval)
  have 3: "sublist ''c@d'' ''a@b c@d''" "sublist ''jdoe@acme.com'' ''mail jdoe@acme.com.''"
    by (simp_all add: str_in_sublist [symmetric])
  have 4: "extract_email (Some ''a@b c@d'') = ''a@b''"
    by (simp add: email_eval)
  have 5: "extract_email (Some ''mail jdoe@acme.com.'') = ''jdoe@acme.com.''"
    by (simp add: email_eval)
  from 1 2 3 4 5 show ?thesis by simp
qed

section \<open>The scan over authors and affiliations\<close>

lemma is_pharma_py_or: "is_pharma_affiliation (Some (py_or x '''')) = is_pharma_affiliation x"
  by (simp add: is_pharma_affiliation_def)

lemma qualifies_text: "qualifies aff \<Longrightarrow> \<exists>t. etext aff = Some t \<and> t \<noteq> []"
  using is_pharma_None_False is_pharma_nonempty by (cases "etext aff") (auto simp: qualifies_def)

lemma aff_step_found: "company_aff st \<noteq> [] \<Longrightarrow> aff_step a st aff = st"
  by (simp add: aff_step_def truthy_def)

lemma aff_step_skip: "\<not> qualifies aff \<Longrightarrow> aff_step a st aff = st"
  by (simp add: aff_step_def qualifies_def is_pharma_py_or)

lemma aff_step_match:
  assumes "qualifies aff" "company_aff st = []" "corr_email st = []" "etext aff = Some t"
  shows "aff_step a st aff =
           \<lparr>non_acad_author = author_name a, company_aff = t, corr_email = extract_email (Some t)\<rparr>"
proof -
  from assms(1,4) have "is_pharma_affiliation (Some t)" by (simp add: qualifies_def)
  then show ?thesis using assms(2-4)
    by (simp add: aff_step_def truthy_def author_name_def Let_def)
qed

lemma affs_loop_found: "company_aff st \<noteq> [] \<Longrightarrow> foldl (aff_step a) st fs = st"
  by (induction fs) (simp_all add: aff_step_found)

lemma affs_loop_skip: "\<forall>g \<in> set fs. \<not> qualifies g \<Longrightarrow> foldl (aff_step a) st fs = st"
  by (induction fs) (simp_all add: aff_step_skip)

lemma author_step_found: "company_aff st \<noteq> [] \<Longrightarrow> author_step st a = st"
  by (simp add: author_step_def affs_loop_found)

lemma author_step_skip: "\<not> author_qualifies a \<Longrightarrow> author_step st a = st"
  by (simp add: author_step_def author_qualifies_def list_ex_iff affs_loop_skip)

lemma authors_loop_found: "company_aff st \<noteq> [] \<Longrightarrow> foldl author_step st as = st"
  by (induction as) (simp_all add: author_step_found)

lemma authors_loop_skip: "\<forall>b \<in> set as. \<not> author_qualifies b \<Longrightarrow> foldl author_step st as = st"
  by (induction as) (simp_all add: author_step_skip)

lemma author_step_match:
  assumes "affs a = fs1 @ f # fs2" "\<forall>g \<in> set fs1. \<not> qualifies g" "qualifies f"
    and "company_aff st = []" "corr_email st = []" "etext f = Some t"
  shows "author_step st a =
           \<lparr>non_acad_author = author_name a, company_aff = t, corr_email = extract_email (Some t)\<rparr>"
proof -
  from assms(3,6) have t: "t \<noteq> []" using qualifies_text by fastforce
  have "author_step st a = foldl (aff_step a) (aff_step a (foldl (aff_step a) st fs1) f) fs2"
    by (simp add: author_step_def assms(1))
  also have "\<dots> = foldl (aff_step a) (aff_step a st f) fs2"
    by (simp add: affs_loop_skip assms(2))
  also have "\<dots> = foldl (aff_step a)
      \<lparr>non_acad_author = author_name a, company_aff = t, corr_email = extract_email (Some t)\<rparr> fs2"
    by (simp add: aff_step_match [OF assms(3-6)])
  also have "\<dots> = \<lparr>non_acad_author = author_name a, company_aff = t, corr_email = extract_email (Some t)\<rparr>"
    using t by (simp add: affs_loop_found)
  finally show ?thesis .
qed

lemma scan_authors_match:
  assumes "authors art = as1 @ a # as2" "\<forall>b \<in> set as1. \<not> author_qualifies b"
    and "affs a = fs1 @ f # fs2" "\<forall>g \<in> set fs1. \<not> qualifies g" "qualifies f"
    and "etext f = Some t"
  shows "scan_authors art =
           \<lparr>non_acad_author = author_name a, company_aff = t, corr_email = extract_email (Some t)\<rparr>"
proof -
  let ?init = "\<lparr>non_acad_author = '''', company_aff = '''', corr_email = ''''\<rparr>"
  from assms(5,6) have t: "t \<noteq> []" using qualifies_text by fastforce
  have "scan_authors art = foldl author_step (author_step (foldl author_step ?init as1) a) as2"
    by (simp add: scan_authors_def assms(1))
  also have "\<dots> = foldl author_step (author_step ?init a) as2"
    by (simp add: authors_loop_skip assms(2))
  also have "\<dots> = foldl author_step
      \<lparr>non_acad_author = author_name a, company_aff = t, corr_email = extract_email (Some t)\<rparr> as2"
    using author_step_match [OF assms(3-5) _ _ assms(6), of ?init] by simp
  also have "\<dots> = \<lparr>non_acad_author = author_name a, company_aff = t, corr_email = extract_email (Some t)\<rparr>"
    using t by (simp add: authors_loop_found)
  finally show ?thesis .
qed

lemma scan_authors_none:
  "\<not> record_qualifies art \<Longrightarrow>
     scan_authors art = \<lparr>non_acad_author = '''', company_aff = '''', corr_email = ''''\<rparr>"
  by (simp add: scan_authors_def record_qualifies_def list_ex_iff authors_loop_skip)

lemma parse_article_None_iff: "(parse_article art = None) = (\<not> record_qualifies art)"
proof (cases "record_qualifies art")
  case False
  then show ?thesis by (simp add: parse_article_def scan_authors_none truthy_def)
next
  case True
  then have "\<exists>a \<in> set (authors art). author_qualifies a"
    by (simp add: record_qualifies_def list_ex_iff)
  from split_list_first_prop [OF this] obtain as1 a as2 where
    a: "authors art = as1 @ a # as2" "author_qualifies a" "\<forall>b \<in> set as1. \<not> author_qualifies b"
    by blast
  from a(2) have "\<exists>g \<in> set (affs a). qualifies g"
    by (simp add: author_qualifies_def list_ex_iff)
  from split_list_first_prop [OF this] obtain fs1 f fs2 where
    f: "affs a = fs1 @ f # fs2" "qualifies f" "\<forall>g \<in> set fs1. \<not> qualifies g"
    by blast
  from f(2) obtain t where t: "etext f = Some t" "t \<noteq> []" using qualifies_text by blast
  have "company_aff (scan_authors art) = t"
    by (simp add: scan_authors_match [OF a(1,3) f(1,3,2) t(1)])
  with t(2) have "parse_article art \<noteq> None"
    by (simp add: parse_article_def truthy_def Let_def)
  with True show ?thesis by simp
qed

lemma parse_article_Some:
  assumes "parse_article art = Some r"
  shows "r = \<lparr>PubmedID = record_id art,
               Title = py_or (findtext [Descendant ''ArticleTitle''] art) '''',
               Publication_Date = pub_date art,
               Company_Affiliation = company_aff (scan_authors art),
               Non_academic_Author = non_acad_author (scan_authors art),
               Corresponding_Author_Email = corr_email (scan_authors art)\<rparr>"
proof (cases "truthy (Some (company_aff (scan_authors art)))")
  case True
  with assms show ?thesis by (simp add: parse_article_def record_id_def Let_def)
next
  case False
  with assms show ?thesis by (simp add: parse_article_def Let_def)
qed

lemma parse_article_fields:
  assumes "parse_article art = Some r"
  shows "PubmedID r = record_id art" "Publication_Date r = pub_date art"
    "Company_Affiliation r = company_aff (scan_authors art)"
    "Non_academic_Author r = non_acad_author (scan_authors art)"
    "Corresponding_Author_Email r = corr_email (scan_authors art)"
  by (simp_all add: parse_article_Some [OF assms])

text \<open>
  C1. In a record entry in which no author before the \<open>k\<close>-th (counted from 1, in
  document order) has a qualifying affiliation and \<open>f\<close> is the first qualifying
  affiliation of the \<open>k\<close>-th author, the result emitted has the name of the \<open>k\<close>-th author
  and the text of \<open>f\<close> in its author and company fields, whatever the later affiliations
  of that author and the affiliations of the later authors are: the first match is never
  overwritten.
\<close>

theorem first_match_wins:
  assumes "1 \<le> k" and "k \<le> length (authors art)"
    and "\<forall>j. 1 \<le> j \<and> j < k \<longrightarrow> \<not> author_qualifies (authors art ! (j - 1))"
    and "affs (authors art ! (k - 1)) = fs1 @ f # fs2"
    and "\<forall>g \<in> set fs1. \<not> qualifies g" and "qualifies f"
  shows "\<exists>r. parse_article art = Some r \<and>
              etext f = Some (Company_Affiliation r) \<and>
              Non_academic_Author r = author_name (authors art ! (k - 1)) \<and>
              Corresponding_Author_Email r = extract_email (etext f)"
proof -
  let ?a = "authors art ! (k - 1)"
  let ?as1 = "take (k - 1) (authors art)" and ?as2 = "drop k (authors art)"
  from assms(1,2) have k: "k - 1 < length (authors art)" "Suc (k - 1) = k" by auto
  have split: "authors art = ?as1 @ ?a # ?as2"
    using id_take_nth_drop [OF k(1)] unfolding k(2) .
  have before: "\<forall>b \<in> set ?as1. \<not> author_qualifies b"
  proof
    fix b assume "b \<in> set ?as1"
    then obtain i where i: "i < length ?as1" "?as1 ! i = b" by (auto simp: in_set_conv_nth)
    then have "i < k - 1" by simp
    then have "1 \<le> Suc i \<and> Suc i < k" by auto
    then have "\<not> author_qualifies (authors art ! (Suc i - 1))"
      using assms(3) by blast
    with i show "\<not> author_qualifies b" by simp
  qed
  from assms(6) obtain t where t: "etext f = Some t" "t \<noteq> []" using qualifies_text by blast
  have scan: "scan_authors art =
      \<lparr>non_acad_author = author_name ?a, company_aff = t, corr_email = extract_email (Some t)\<rparr>"
    using scan_authors_match [OF split before assms(4,5,6) t(1)] .
  have "?a \<in> set (authors art)" using k(1) by (rule nth_mem)
  moreover have "f \<in> set (affs ?a)" unfolding assms(4) by simp
  ultimately have "record_qualifies art"
    using assms(6) unfolding record_qualifies_def author_qualifies_def list_ex_iff by blast
  then obtain r where r: "parse_article art = Some r"
    using parse_article_None_iff by (cases "parse_article art") auto
  show ?thesis using r t(1) by (simp add: parse_article_fields [OF r] scan)
qed

lemmas pharma_eval =
  is_pharma_affiliation_def PHARMA_KEYWORDS_def lower_def lower_char_def
  ascii_uppercase_def ascii_lowercase_def latin1_uppercase_def latin1_lowercase_def

lemmas xml_eval =
  authors_def affs_def findall_def findtext_def

lemma example_authors:
  "authors example_record = [example_author_1, example_author_2, example_author_3]"
  by (simp add: xml_eval example_record_def example_author_1_def example_author_2_def
      example_author_3_def)

lemma example_affs_2:
  "affs example_author_2 =
     [Elem ''Affiliation'' (Some ''MIT'') []] @
     Elem ''Affiliation'' (Some ''Acme Inc, jdoe@acme.com'') [] #
     [Elem ''Affiliation'' (Some ''Beta GmbH'') []]"
  by (simp add: xml_eval example_author_2_def)

lemma example_author_1_academic: "\<not> author_qualifies example_author_1"
  by (simp add: author_qualifies_def qualifies_def xml_eval example_author_1_def pharma_eval)

lemma example_author_2_name: "author_name example_author_2 = ''J Doe''"
  by (simp add: author_name_def xml_eval example_author_2_def strip_def is_space_def)

theorem first_match_wins_witness:
  "map_option Company_Affiliation (parse_article example_record) = Some ''Acme Inc, jdoe@acme.com'' \<and>
   map_option Non_academic_Author (parse_article example_record) = Some ''J Doe'' \<and>
   author_qualifies example_author_3"
proof -
  let ?f = "Elem ''Affiliation'' (Some ''Acme Inc, jdoe@acme.com'') []"
  have 1: "(1::nat) \<le> 2" "2 \<le> length (authors example_record)"
    by (simp_all add: example_authors)
  have 2: "\<forall>j. 1 \<le> j \<and> j < 2 \<longrightarrow> \<not> author_qualifies (authors example_record ! (j - 1))"
  proof (intro allI impI)
    fix j :: nat assume "1 \<le> j \<and> j < 2"
    then have "j = 1" by auto
    then show "\<not> author_qualifies (authors example_record ! (j - 1))"
      by (simp add: example_authors example_author_1_academic)
  qed
  have 3: "affs (authors example_record ! (2 - 1)) =
      [Elem ''Affiliation'' (Some ''MIT'') []] @ ?f # [Elem ''Affiliation'' (Some ''Beta GmbH'') []]"
    by (simp add: example_authors example_affs_2)
  have 4: "\<forall>g \<in> set [Elem ''Affiliation'' (Some ''MIT'') []]. \<not> qualifies g"
    by (simp add: qualifies_def pharma_eval)
  have 5: "qualifies ?f"
    by (simp add: qualifies_def pharma_eval)
  have 6: "author_qualifies example_author_3"
    by (simp add: author_qualifies_def qualifies_def xml_eval example_author_3_def pharma_eval)
  from first_match_wins [OF 1 2 3 4 5] obtain r where
    "parse_article example_record = Some r"
    "etext ?f = Some (Company_Affiliation r)"
    "Non_academic_Author r = author_name (authors example_record ! (2 - 1))"
    by blast
  then show ?thesis using 6 by (simp add: example_authors example_author_2_name)
qed

section \<open>The publication date\<close>

text \<open>
  C6, as amended. In every result emitted, the publication date is the text of the
  article-level year element when that element is there with a text that is not empty;
  otherwise the text of the year element of the article date when that one is there with
  a text that is not empty; otherwise the empty string.
\<close>

theorem publication_date_fallback:
  assumes "parse_article art = Some r"
  shows "(\<forall>y. findtext [Descendant ''PubDate'', Child ''Year''] art = Some y \<and> y \<noteq> ''''
              \<longrightarrow> Publication_Date r = y) \<and>
         (\<forall>z. (findtext [Descendant ''PubDate'', Child ''Year''] art = None \<or>
               findtext [Descendant ''PubDate'', Child ''Year''] art = Some '''') \<and>
              findtext [Descendant ''ArticleDate'', Child ''Year''] art = Some z \<and> z \<noteq> ''''
              \<longrightarrow> Publication_Date r = z) \<and>
         ((findtext [Descendant ''PubDate'', Child ''Year''] art = None \<or>
           findtext [Descendant ''PubDate'', Child ''Year''] art = Some '''') \<and>
          (findtext [Descendant ''ArticleDate'', Child ''Year''] art = None \<or>
           findtext [Descendant ''ArticleDate'', Child ''Year''] art = Some '''')
              \<longrightarrow> Publication_Date r = '''')"
proof -
  have "Publication_Date r = pub_date art"
    using parse_article_fields(2) [OF assms] .
  then show ?thesis
    by (auto simp: pub_date_def opt_or_def truthy_def py_or_def)
qed

lemma example_record_parsed:
  "parse_article example_record =
     Some \<lparr>PubmedID = ''7'', Title = ''A trial'', Publication_Date = ''2019'',
           Company_Affiliation = ''Acme Inc, jdoe@acme.com'', Non_academic_Author = ''J Doe'',
           Corresponding_Author_Email = ''jdoe@acme.com''\<rparr>"
  by code_simp

lemma empty_year_record_parsed:
  "parse_article empty_year_record =
     Some \<lparr>PubmedID = ''9'', Title = '''', Publication_Date = ''2020'',
           Company_Affiliation = ''Gamma Corp, poe@gamma.com'', Non_academic_Author = ''Poe'',
           Corresponding_Author_Email = ''poe@gamma.com''\<rparr>"
  by code_simp

lemma academic_record_parsed: "parse_article academic_record = None"
  by code_simp

theorem publication_date_fallback_witness:
  "findtext [Descendant ''PubDate'', Child ''Year''] example_record = Some ''2019'' \<and>
   map_option Publication_Date (parse_article example_record) = Some ''2019'' \<and>
   findtext [Descendant ''PubDate'', Child ''Year''] empty_year_record = Some '''' \<and>
   findtext [Descendant ''ArticleDate'', Child ''Year''] empty_year_record = Some ''2020'' \<and>
   map_option Publication_Date (parse_article empty_year_record) = Some ''2020''"
proof -
  have 1: "findtext [Descendant ''PubDate'', Child ''Year''] example_record = Some ''2019''"
    by (simp add: xml_eval example_record_def example_author_1_def example_author_2_def
        example_author_3_def)
  have 2: "findtext [Descendant ''PubDate'', Child ''Year''] empty_year_record = Some ''''"
    "findtext [Descendant ''ArticleDate'', Child ''Year''] empty_year_record = Some ''2020''"
    by (simp_all add: xml_eval empty_year_record_def example_author_3_def)
  from publication_date_fallback [OF example_record_parsed] 1
  have 3: "map_option Publication_Date (parse_article example_record) = Some ''2019''"
    by (simp add: example_record_parsed)
  from publication_date_fallback [OF empty_year_record_parsed] 2
  have 4: "map_option Publication_Date (parse_article empty_year_record) = Some ''2020''"
    by (simp add: empty_year_record_parsed)
  from 1 2 3 4 show ?thesis by simp
qed

text \<open>
  C6 as stated fails: the article-level year element of this record entry is there, its
  text is empty, and the publication date is the year of the article date.
\<close>

theorem publication_date_fallback_counterexample:
  "findtext [Descendant ''PubDate'', Child ''Year''] empty_year_record = Some '''' \<and>
   map_option Publication_Date (parse_article empty_year_record) = Some ''2020'' \<and>
   ''2020'' \<noteq> ''''"
proof -
  have "findtext [Descendant ''PubDate'', Child ''Year''] empty_year_record = Some ''''"
    by (simp add: xml_eval empty_year_record_def example_author_3_def)
  then show ?thesis by (simp add: empty_year_record_parsed)
qed

section \<open>The loop over the batches\<close>

lemma map_filter_app:
  "List.map_filter f (xs @ ys) = List.map_filter f xs @ List.map_filter f ys"
  by (induction xs) (auto split: option.splits)

lemma art_loop_results:
  "fst (foldl (art_step dbg) (results, tr) arts) = results @ List.map_filter parse_article arts"
proof (induction arts arbitrary: results tr)
  case Nil
  then show ?case by simp
next
  case (Cons art arts)
  show ?case
  proof (cases "parse_article art")
    case None
    then show ?thesis using Cons.IH by (simp add: art_step_def)
  next
    case (Some r)
    then show ?thesis using Cons.IH by (simp add: art_step_def)
  qed
qed

lemma parse_loop_results:
  "map fs xmls = map Inr roots \<Longrightarrow>
     snd (parse_loop fs dbg xmls results tr) =
       Inr (results @ List.map_filter parse_article (record_entries roots))"
proof (induction xmls arbitrary: roots results tr)
  case Nil
  then show ?case by (simp add: record_entries_def)
next
  case (Cons x xmls)
  then obtain root roots' where r: "roots = root # roots'" "fs x = Inr root"
    "map fs xmls = map Inr roots'"
    by (cases roots) auto
  obtain results' tr' where f:
    "foldl (art_step dbg) (results, tr) (findall [Descendant ''PubmedArticle''] root) = (results', tr')"
    by (cases "foldl (art_step dbg) (results, tr) (findall [Descendant ''PubmedArticle''] root)")
  have "results' = results @ List.map_filter parse_article (findall [Descendant ''PubmedArticle''] root)"
    using art_loop_results [of dbg results tr "findall [Descendant ''PubmedArticle''] root"] f
    by simp
  moreover have "snd (parse_loop fs dbg (x # xmls) results tr) =
      snd (parse_loop fs dbg xmls results' tr')"
    using r(2) f by simp
  ultimately show ?case
    using Cons.IH [OF r(3), of results' tr'] r(1)
    by (simp add: record_entries_def map_filter_app)
qed

lemma map_Some_map_filter:
  "map Some (List.map_filter f xs) = map f (filter (\<lambda>x. f x \<noteq> None) xs)"
  by (induction xs) (auto split: option.splits)

lemma qualifies_eq_parsed: "record_qualifies = (\<lambda>art. parse_article art \<noteq> None)"
  using parse_article_None_iff by auto

text \<open>
  C5, as amended. For batches that are all well-formed, the list the parser returns has
  exactly one result for each record entry with a qualifying author and none for the
  others, in the order of the record entries (the batches in order, the entries of a batch
  in document order); the identifiers of the results are those of these entries, so that
  no two results share an identifier when no two record entries do.
\<close>

theorem parse_articles_one_result_per_qualifying_record:
  assumes "map (fromstring w) xmls = map Inr roots"
  shows "\<exists>rs. snd (parse_articles w xmls dbg tr) = Inr rs \<and>
           map Some rs = map parse_article (filter record_qualifies (record_entries roots)) \<and>
           map PubmedID rs = map record_id (filter record_qualifies (record_entries roots)) \<and>
           (distinct (map record_id (record_entries roots)) \<longrightarrow> distinct (map PubmedID rs))"
proof -
  let ?rs = "List.map_filter parse_article (record_entries roots)"
  let ?q = "filter record_qualifies (record_entries roots)"
  have 1: "snd (parse_articles w xmls dbg tr) = Inr ?rs"
    using parse_loop_results [OF assms, of dbg "[]" tr] by (simp add: parse_articles_def)
  have 2: "map Some ?rs = map parse_article ?q"
    by (simp add: map_Some_map_filter qualifies_eq_parsed)
  have 3: "map PubmedID ?rs = map record_id ?q"
  proof (rule nth_equalityI)
    show len: "length (map PubmedID ?rs) = length (map record_id ?q)"
      using arg_cong [OF 2, of length] by simp
    fix i assume "i < length (map PubmedID ?rs)"
    then have i: "i < length ?rs" "i < length ?q" using len by simp_all
    then have "map Some ?rs ! i = map parse_article ?q ! i" using 2 by simp
    then have "parse_article (?q ! i) = Some (?rs ! i)" using i by simp
    then have "PubmedID (?rs ! i) = record_id (?q ! i)" by (rule parse_article_fields(1))
    then show "map PubmedID ?rs ! i = map record_id ?q ! i" using i by simp
  qed
  have 4: "distinct (map record_id (record_entries roots)) \<longrightarrow> distinct (map PubmedID ?rs)"
    unfolding 3 by (simp add: distinct_map_filter)
  from 1 2 3 4 show ?thesis by blast
qed

lemma example_entries_1: "record_entries [example_batch_1] = [academic_record, example_record]"
  by (simp add: record_entries_def findall_def example_batch_1_def academic_record_def
      example_record_def example_author_1_def example_author_2_def example_author_3_def)

theorem parse_articles_one_result_per_qualifying_record_witness:
  "map (fromstring example_world) [''1''] = map Inr [example_batch_1] \<and>
   distinct (map record_id (record_entries [example_batch_1])) \<and>
   snd (parse_articles example_world [''1''] True []) =
     Inr [\<lparr>PubmedID = ''7'', Title = ''A trial'', Publication_Date = ''2019'',
            Company_Affiliation = ''Acme Inc, jdoe@acme.com'', Non_academic_Author = ''J Doe'',
            Corresponding_Author_Email = ''jdoe@acme.com''\<rparr>]"
proof -
  have 1: "map (fromstring example_world) [''1''] = map Inr [example_batch_1]"
    by (simp add: example_world_def)
  have 2: "distinct (map record_id (record_entries [example_batch_1]))"
    by (simp add: example_entries_1 record_id_def findtext_def findall_def academic_record_def
        example_record_def example_author_1_def example_author_2_def example_author_3_def)
  have 3: "filter record_qualifies (record_entries [example_batch_1]) = [example_record]"
    by (simp add: example_entries_1 qualifies_eq_parsed academic_record_parsed
        example_record_parsed)
  from parse_articles_one_result_per_qualifying_record [OF 1, of True "[]"] obtain rs where
    rs: "snd (parse_articles example_world [''1''] True []) = Inr rs"
    "map Some rs = map parse_article (filter record_qualifies (record_entries [example_batch_1]))"
    by blast
  from rs(2) have "rs = [\<lparr>PubmedID = ''7'', Title = ''A trial'', Publication_Date = ''2019'',
            Company_Affiliation = ''Acme Inc, jdoe@acme.com'', Non_academic_Author = ''J Doe'',
            Corresponding_Author_Email = ''jdoe@acme.com''\<rparr>]"
    unfolding 3 by (auto simp: example_record_parsed)
  with 1 2 rs(1) show ?thesis by simp
qed

text \<open>
  C5 as stated fails in its last clause: the two record entries of this batch have the
  same identifier, and the parser returns a result for each of them.
\<close>

theorem parse_articles_one_result_per_qualifying_record_counterexample:
  "fromstring example_world ''2'' = Inr example_batch_2 \<and>
   map_sum id (map PubmedID) (snd (parse_articles example_world [''2''] False [])) =
     Inr [''9'', ''9''] \<and>
   \<not> distinct [''9'', ''9'']"
  by code_simp

section \<open>The record fetcher\<close>

declare fetch_loop.simps [simp del]

lemma chunk_index: "(50 * c < length pmids) = (c < n_chunks pmids)"
  by (auto simp: n_chunks_def)

lemma chunk_length: "c < n_chunks pmids \<Longrightarrow> chunk c pmids \<noteq> [] \<and> length (chunk c pmids) \<le> 50"
  using chunk_index [of c pmids] by (auto simp: chunk_def)

lemma concat_takes:
  "concat (map (\<lambda>k. take m (drop (m * k) xs)) [0..<n]) = take (m * n) xs"
proof (induction n)
  case 0
  then show ?case by simp
next
  case (Suc n)
  have "take (m * n + m) xs = take (m * n) xs @ take m (drop (m * n) xs)"
    by (rule take_add)
  moreover have "m * Suc n = m * n + m" by simp
  moreover have "concat (map (\<lambda>k. take m (drop (m * k) xs)) [0..<Suc n]) =
      concat (map (\<lambda>k. take m (drop (m * k) xs)) [0..<n]) @ take m (drop (m * n) xs)"
    by simp
  ultimately show ?case using Suc by (simp only:)
qed

lemma concat_chunks: "concat (map (\<lambda>k. chunk k pmids) [0..<n_chunks pmids]) = pmids"
proof -
  have "length pmids \<le> 50 * n_chunks pmids" by (simp add: n_chunks_def)
  then show ?thesis unfolding chunk_def by (simp add: concat_takes)
qed

lemma fetch_loop_step:
  assumes "c < n_chunks pmids" "get (join '','' (chunk c pmids)) = Inr txt"
  shows "fetch_loop get dbg pmids (50 * c) arts tr =
           fetch_loop get dbg pmids (50 * Suc c) (arts @ [txt])
             (tr @ (if dbg then [Debug (DbgFetching (Suc (count_list (join '','' (chunk c pmids)) CHR '',''))
                                       (join '','' (chunk c pmids)))] else [])
                 @ [EFetch (join '','' (chunk c pmids)), Sleep])"
proof -
  from assms(1) have "50 * c < length pmids" by (simp add: chunk_index)
  then show ?thesis
    using assms(2)
    by (subst fetch_loop.simps) (simp add: batch_size_def chunk_def Let_def add.commute)
qed

lemma fetch_loop_done:
  "fetch_loop get dbg pmids (50 * n_chunks pmids) arts tr = (tr, Inr arts)"
proof -
  have "\<not> 50 * n_chunks pmids < length pmids" by (simp add: chunk_index)
  then show ?thesis by (subst fetch_loop.simps) simp
qed

lemma fetch_loop_trace:
  assumes ok: "\<forall>k < n_chunks pmids. \<exists>txt. get (join '','' (chunk k pmids)) = Inr txt"
  shows "c \<le> n_chunks pmids \<Longrightarrow>
     filter (\<lambda>e. \<not> is_debug e) (fst (fetch_loop get dbg pmids (50 * c) arts tr)) =
       filter (\<lambda>e. \<not> is_debug e) tr @
       concat (map (\<lambda>k. [EFetch (join '','' (chunk k pmids)), Sleep]) [c..<n_chunks pmids]) \<and>
     (\<exists>txts. snd (fetch_loop get dbg pmids (50 * c) arts tr) = Inr (arts @ txts) \<and>
        map Inr txts = map (\<lambda>k. get (join '','' (chunk k pmids))) [c..<n_chunks pmids])"
proof (induction "n_chunks pmids - c" arbitrary: c arts tr)
  case 0
  then have "c = n_chunks pmids" by simp
  then show ?case by (simp add: fetch_loop_done)
next
  case (Suc d)
  then have c: "c < n_chunks pmids" by simp
  with ok obtain resp where resp: "get (join '','' (chunk c pmids)) = Inr resp" by blast
  let ?tr = "tr @ (if dbg then [Debug (DbgFetching (Suc (count_list (join '','' (chunk c pmids)) CHR '',''))
                                       (join '','' (chunk c pmids)))] else [])
                 @ [EFetch (join '','' (chunk c pmids)), Sleep]"
  have step: "fetch_loop get dbg pmids (50 * c) arts tr =
      fetch_loop get dbg pmids (50 * Suc c) (arts @ [resp]) ?tr"
    using c resp by (rule fetch_loop_step)
  have d: "d = n_chunks pmids - Suc c" "Suc c \<le> n_chunks pmids" using Suc.hyps(2) c by simp_all
  from Suc.hyps(1) [OF d, of "arts @ [resp]" ?tr] obtain txts where
    IH1: "filter (\<lambda>e. \<not> is_debug e) (fst (fetch_loop get dbg pmids (50 * Suc c) (arts @ [resp]) ?tr)) =
       filter (\<lambda>e. \<not> is_debug e) ?tr @
       concat (map (\<lambda>k. [EFetch (join '','' (chunk k pmids)), Sleep]) [Suc c..<n_chunks pmids])"
    and IH2: "snd (fetch_loop get dbg pmids (50 * Suc c) (arts @ [resp]) ?tr) = Inr ((arts @ [resp]) @ txts)"
      "map Inr txts = map (\<lambda>k. get (join '','' (chunk k pmids))) [Suc c..<n_chunks pmids]"
    by blast
  have upt: "[c..<n_chunks pmids] = c # [Suc c..<n_chunks pmids]"
    using c by (simp add: upt_conv_Cons)
  have "filter (\<lambda>e. \<not> is_debug e) (fst (fetch_loop get dbg pmids (50 * c) arts tr)) =
       filter (\<lambda>e. \<not> is_debug e) tr @
       concat (map (\<lambda>k. [EFetch (join '','' (chunk k pmids)), Sleep]) [c..<n_chunks pmids])"
    unfolding step IH1 upt by simp
  moreover have "snd (fetch_loop get dbg pmids (50 * c) arts tr) = Inr (arts @ (resp # txts))"
    unfolding step IH2(1) by simp
  moreover have "map Inr (resp # txts) = map (\<lambda>k. get (join '','' (chunk k pmids))) [c..<n_chunks pmids]"
    unfolding upt using resp IH2(2) by simp
  ultimately show ?case by blast
qed

text \<open>
  C2, as amended. When every fetch request is answered, for a list of \<open>L\<close> identifiers the
  fetcher issues exactly \<open>ceil(L/50)\<close> requests, the \<open>k\<close>-th for the \<open>k\<close>-th chunk of at
  most 50 consecutive identifiers, in order, and pauses exactly \<open>ceil(L/50)\<close> times: once
  after every request, the last one included. It returns the answers in the order of the
  chunks.
\<close>

theorem fetch_article_xml_chunks:
  assumes "\<forall>k < n_chunks pmids. \<exists>txt. efetch w (join '','' (chunk k pmids)) = Inr txt"
  shows "filter (\<lambda>e. \<not> is_debug e) (fst (fetch_article_xml w pmids dbg [])) =
           concat (map (\<lambda>k. [EFetch (join '','' (chunk k pmids)), Sleep]) [0..<n_chunks pmids]) \<and>
         length (filter is_efetch (fst (fetch_article_xml w pmids dbg []))) = (length pmids + 49) div 50 \<and>
         length (filter is_sleep (fst (fetch_article_xml w pmids dbg []))) = (length pmids + 49) div 50 \<and>
         (\<forall>k < n_chunks pmids. chunk k pmids \<noteq> [] \<and> length (chunk k pmids) \<le> 50) \<and>
         concat (map (\<lambda>k. chunk k pmids) [0..<n_chunks pmids]) = pmids \<and>
         (\<exists>txts. snd (fetch_article_xml w pmids dbg []) = Inr txts \<and>
            map Inr txts = map (\<lambda>k. efetch w (join '','' (chunk k pmids))) [0..<n_chunks pmids])"
proof -
  let ?tr = "fst (fetch_article_xml w pmids dbg [])"
  let ?ev = "\<lambda>k. [EFetch (join '','' (chunk k pmids)), Sleep]"
  from fetch_loop_trace [OF assms, of 0 dbg "[]" "[]"]
  have 1: "filter (\<lambda>e. \<not> is_debug e) ?tr = concat (map ?ev [0..<n_chunks pmids])"
    and 2: "\<exists>txts. snd (fetch_article_xml w pmids dbg []) = Inr txts \<and>
            map Inr txts = map (\<lambda>k. efetch w (join '','' (chunk k pmids))) [0..<n_chunks pmids]"
    by (simp_all add: fetch_article_xml_def)
  have count: "length (filter P (concat (map ?ev ks))) =
      (if P Sleep then length ks else 0) + length (filter (\<lambda>k. P (EFetch (join '','' (chunk k pmids)))) ks)"
    for P ks by (induction ks) auto
  have e: "filter is_efetch ?tr = filter is_efetch (filter (\<lambda>e. \<not> is_debug e) ?tr)"
    by (simp add: filter_filter) (rule filter_cong, simp, case_tac x, simp_all)
  have s: "filter is_sleep ?tr = filter is_sleep (filter (\<lambda>e. \<not> is_debug e) ?tr)"
    by (simp add: filter_filter) (rule filter_cong, simp, case_tac x, simp_all)
  have 3: "length (filter is_efetch ?tr) = (length pmids + 49) div 50"
    unfolding e 1 count by (simp add: n_chunks_def)
  have 4: "length (filter is_sleep ?tr) = (length pmids + 49) div 50"
    unfolding s 1 count by (simp add: n_chunks_def)
  from 1 2 3 4 chunk_length concat_chunks show ?thesis by blast
qed


theorem fetch_article_xml_chunks_witness:
  "length example_pmids = 51 \<and>
   length (filter is_efetch (fst (fetch_article_xml broken_world example_pmids True []))) = 2 \<and>
   length (filter is_sleep (fst (fetch_article_xml broken_world example_pmids True []))) = 2 \<and>
   concat (map (\<lambda>k. chunk k example_pmids) [0..<n_chunks example_pmids]) = example_pmids"
proof -
  have h: "\<forall>k < n_chunks example_pmids.
      \<exists>resp. efetch broken_world (join '','' (chunk k example_pmids)) = Inr resp"
    by (simp add: broken_world_def)
  have l: "length example_pmids = 51" by (simp add: example_pmids_def)
  from fetch_article_xml_chunks [OF h, of True] l show ?thesis by simp
qed

text \<open>
  C2 as stated fails in the number of pauses: for one identifier the fetcher sends one
  request and then pauses once, where \<open>ceil(L/50) - 1\<close> is 0; the pause is the last event.
\<close>

theorem fetch_article_xml_chunks_counterexample:
  "fst (fetch_article_xml example_world [''1''] False []) = [EFetch ''1'', Sleep] \<and>
   length (filter is_sleep (fst (fetch_article_xml example_world [''1''] False []))) = 1 \<and>
   (length [''1''] + 49) div 50 - 1 = 0"
proof -
  have "fetch_loop (efetch example_world) False [''1''] 0 [] [] = ([EFetch ''1'', Sleep], Inr [''1''])"
    by (simp add: fetch_loop.simps batch_size_def example_world_def Let_def)
  then show ?thesis by (simp add: fetch_article_xml_def)
qed

section \<open>The run of the program\<close>

lemma fetch_pmids_ok:
  assumes "esearch w q n = Inr pmids"
  shows "fetch_pmids w q n dbg tr =
           (tr @ (if dbg then [Debug DbgESearchUrl, Debug (DbgESearchParams q n)] else []) @
              [ESearch q n] @ (if dbg then [Debug (DbgFound (length pmids))] else []),
            Inr pmids)"
  using assms by (simp add: fetch_pmids_def Let_def)

text \<open>
  C7. When the search returns an empty identifier list, the run prints
  \<open>No articles found for the given query.\<close> and exits with status 0; apart from debug
  lines, the search request and that message are all the run does, so the fetch endpoint
  is never called.
\<close>

theorem no_articles_found:
  assumes "query a \<noteq> []" and "esearch w (join '' '' (query a)) (num a) = Inr []"
  shows "snd (main w a) = 0 \<and>
         last (fst (main w a)) = Print ''No articles found for the given query.'' \<and>
         filter (\<lambda>e. \<not> is_debug e) (fst (main w a)) =
           [ESearch (join '' '' (query a)) (num a), Print ''No articles found for the given query.''] \<and>
         filter is_efetch (fst (main w a)) = []"
  using assms by (simp add: main_def Let_def fetch_pmids_ok [OF assms(2)])

theorem no_articles_found_witness:
  "snd (main example_world \<lparr>query = [''nothing''], num = 100, filename = None, debug = True\<rparr>) = 0 \<and>
   last (fst (main example_world \<lparr>query = [''nothing''], num = 100, filename = None, debug = True\<rparr>)) =
     Print ''No articles found for the given query.'' \<and>
   filter is_efetch
     (fst (main example_world \<lparr>query = [''nothing''], num = 100, filename = None, debug = True\<rparr>)) = []"
proof -
  let ?a = "\<lparr>query = [''nothing''], num = 100, filename = None, debug = True\<rparr>"
  have 1: "query ?a \<noteq> []" by simp
  have 2: "esearch example_world (join '' '' (query ?a)) (num ?a) = Inr []"
    by (simp add: example_world_def)
  from no_articles_found [OF 1 2] show ?thesis by blast
qed

section \<open>A batch that is not well-formed\<close>

lemma art_loop_trace:
  "filter (\<lambda>e. \<not> is_debug e) (snd (foldl (art_step dbg) (results, tr) arts)) =
     filter (\<lambda>e. \<not> is_debug e) tr"
proof (induction arts arbitrary: results tr)
  case Nil
  then show ?case by simp
next
  case (Cons art arts)
  show ?case
  proof (cases "parse_article art")
    case None
    then show ?thesis using Cons.IH by (simp add: art_step_def)
  next
    case (Some r)
    then show ?thesis using Cons.IH by (simp add: art_step_def)
  qed
qed

lemma parse_loop_trace:
  "filter (\<lambda>e. \<not> is_debug e) (fst (parse_loop fs dbg xmls results tr)) =
     filter (\<lambda>e. \<not> is_debug e) tr"
proof (induction xmls arbitrary: results tr)
  case Nil
  then show ?case by simp
next
  case (Cons x xmls)
  show ?case
  proof (cases "fs x")
    case (Inl e)
    then show ?thesis by simp
  next
    case (Inr root)
    obtain results' tr' where f:
      "foldl (art_step dbg) (results, tr) (findall [Descendant ''PubmedArticle''] root) = (results', tr')"
      by (cases "foldl (art_step dbg) (results, tr) (findall [Descendant ''PubmedArticle''] root)")
    have "filter (\<lambda>e. \<not> is_debug e) tr' = filter (\<lambda>e. \<not> is_debug e) tr"
      using art_loop_trace [of dbg results tr "findall [Descendant ''PubmedArticle''] root"] f
      by simp
    then show ?thesis using Inr f Cons.IH [of results' tr'] by simp
  qed
qed

lemma parse_loop_fails:
  "x \<in> set xmls \<Longrightarrow> fs x = Inl e \<Longrightarrow>
     \<exists>x' e'. x' \<in> set xmls \<and> fs x' = Inl e' \<and> snd (parse_loop fs dbg xmls results tr) = Inl e'"
proof (induction xmls arbitrary: results tr)
  case Nil
  then show ?case by simp
next
  case (Cons y xmls)
  show ?case
  proof (cases "fs y")
    case (Inl e')
    then show ?thesis by auto
  next
    case (Inr root)
    with Cons.prems have "x \<in> set xmls" by auto
    obtain results' tr' where f:
      "foldl (art_step dbg) (results, tr) (findall [Descendant ''PubmedArticle''] root) = (results', tr')"
      by (cases "foldl (art_step dbg) (results, tr) (findall [Descendant ''PubmedArticle''] root)")
    from Cons.IH [OF \<open>x \<in> set xmls\<close> Cons.prems(2), of results' tr'] obtain x' e' where
      "x' \<in> set xmls" "fs x' = Inl e'" "snd (parse_loop fs dbg xmls results' tr') = Inl e'"
      by blast
    then show ?thesis using Inr f by auto
  qed
qed

lemma report_not_debug:
  "filter is_report t = filter is_report (filter (\<lambda>e. \<not> is_debug e) t)"
proof -
  have "is_report e = (\<not> is_debug e \<and> is_report e)" for e by (cases e) simp_all
  then show ?thesis by (simp add: filter_filter)
qed

lemma fetch_events_no_report:
  "filter is_report (concat (map (\<lambda>k. [EFetch (f k), Sleep]) ks)) = []"
  by (induction ks) simp_all

text \<open>
  C8. When the search finds identifiers, every fetch is answered and the text of some
  batch is not well-formed, the run prints the error message of the parser, exits with
  status 1 and emits no report, neither a table nor a CSV file.
\<close>

theorem malformed_batch_aborts:
  assumes "query a \<noteq> []"
    and "esearch w (join '' '' (query a)) (num a) = Inr pmids" and "pmids \<noteq> []"
    and "\<forall>k < n_chunks pmids. \<exists>resp. efetch w (join '','' (chunk k pmids)) = Inr resp"
    and "k < n_chunks pmids" and "efetch w (join '','' (chunk k pmids)) = Inr x"
    and "fromstring w x = Inl e0"
  shows "snd (main w a) = 1 \<and>
         filter is_report (fst (main w a)) = [] \<and>
         (\<exists>x' e. fromstring w x' = Inl e \<and>
            last (fst (main w a)) = Print (''Error fetching or parsing articles: '' @ exn_str e))"
proof -
  let ?q = "join '' '' (query a)" and ?dbg = "debug a"
  let ?nd = "\<lambda>e. \<not> is_debug e"
  let ?tr0 = "if ?dbg then [Debug (DbgQuery ?q), Debug (DbgNumResults (num a)),
                          Debug (DbgOutputFile (filename a))] else []"
  obtain tr1 where fp: "fetch_pmids w ?q (num a) ?dbg ?tr0 = (tr1, Inr pmids)"
    and tr1: "filter ?nd tr1 = [ESearch ?q (num a)]"
    using fetch_pmids_ok [OF assms(2), of ?dbg ?tr0] by simp
  obtain tr2 r2 where fx: "fetch_article_xml w pmids ?dbg tr1 = (tr2, r2)"
    by (cases "fetch_article_xml w pmids ?dbg tr1")
  from fetch_loop_trace [OF assms(4), of 0 ?dbg "[]" tr1] fx obtain xmls where
    tr2: "filter ?nd tr2 = filter ?nd tr1 @
            concat (map (\<lambda>k. [EFetch (join '','' (chunk k pmids)), Sleep]) [0..<n_chunks pmids])"
    and r2: "r2 = Inr xmls"
    and xmls: "map Inr xmls = map (\<lambda>k. efetch w (join '','' (chunk k pmids))) [0..<n_chunks pmids]"
    by (auto simp: fetch_article_xml_def)
  have len: "length xmls = n_chunks pmids" using arg_cong [OF xmls, of length] by simp
  have "map Inr xmls ! k = map (\<lambda>k. efetch w (join '','' (chunk k pmids))) [0..<n_chunks pmids] ! k"
    by (simp only: xmls)
  then have "xmls ! k = x" using assms(5,6) len by simp
  then have xin: "x \<in> set xmls" using assms(5) len by (metis nth_mem)
  obtain tr3 r3 where pa: "parse_articles w xmls ?dbg tr2 = (tr3, r3)"
    by (cases "parse_articles w xmls ?dbg tr2")
  from parse_loop_fails [where fs = "fromstring w" and dbg = ?dbg and results = "[]" and tr = tr2,
      OF xin assms(7)] pa obtain x' e where
    e: "fromstring w x' = Inl e" "r3 = Inl e"
    by (auto simp: parse_articles_def)
  have tr3: "filter ?nd tr3 = filter ?nd tr2"
    using parse_loop_trace [of "fromstring w" ?dbg xmls "[]" tr2] pa
    by (simp add: parse_articles_def)
  have m: "main w a = (tr3 @ [Print (''Error fetching or parsing articles: '' @ exn_str e)], 1)"
    using assms(1,3) by (simp add: main_def Let_def fp fx r2 pa e(2))
  have "filter is_report tr3 = []"
    by (subst report_not_debug) (simp add: tr3 tr2 tr1 fetch_events_no_report)
  with m e(1) show ?thesis by auto
qed

theorem malformed_batch_aborts_witness:
  "efetch broken_world (join '','' (chunk 0 example_pmids)) = Inr ''1'' \<and>
   fromstring broken_world ''1'' = Inr example_batch_1 \<and>
   efetch broken_world (join '','' (chunk 1 example_pmids)) = Inr ''<broken'' \<and>
   fromstring broken_world ''<broken'' = Inl (ParseError ''syntax error: line 1, column 0'') \<and>
   snd (main broken_world example_args) = 1 \<and>
   filter is_report (fst (main broken_world example_args)) = []"
proof -
  have c0: "chunk 0 example_pmids = replicate 50 ''7''"
    by (simp add: chunk_def example_pmids_def)
  have c1: "chunk 1 example_pmids = [''x'']"
    by (simp add: chunk_def example_pmids_def)
  have n: "n_chunks example_pmids = 2"
    by (simp add: n_chunks_def example_pmids_def)
  have j: "join '','' (replicate 50 ''7'') \<noteq> ''x''"
    by code_simp
  have 1: "query example_args \<noteq> []" by (simp add: example_args_def)
  have 2: "esearch broken_world (join '' '' (query example_args)) (num example_args) = Inr example_pmids"
    by (simp add: broken_world_def)
  have 3: "example_pmids \<noteq> []" by (simp add: example_pmids_def)
  have 4: "\<forall>k < n_chunks example_pmids.
             \<exists>resp. efetch broken_world (join '','' (chunk k example_pmids)) = Inr resp"
    by (simp add: broken_world_def)
  have 5: "1 < n_chunks example_pmids" by (simp add: n)
  have 6: "efetch broken_world (join '','' (chunk 1 example_pmids)) = Inr ''<broken''"
    unfolding c1 by (simp add: broken_world_def)
  have 7: "fromstring broken_world ''<broken'' = Inl (ParseError ''syntax error: line 1, column 0'')"
    by (simp add: broken_world_def example_world_def)
  have 8: "efetch broken_world (join '','' (chunk 0 example_pmids)) = Inr ''1''"
    unfolding c0 using j by (simp add: broken_world_def)
  have 9: "fromstring broken_world ''1'' = Inr example_batch_1"
    by (simp add: broken_world_def example_world_def)
  from malformed_batch_aborts [OF 1 2 3 4 5 6 7] 6 7 8 9 show ?thesis by blast
qed

end
